theory Spec2Isabelle
  imports Main "HOL-Library.Sublist"
begin

section \<open>Text and characters\<close>

text \<open>
  The scanner of \<^verbatim>\<open>find_toasts.py\<close> reads each file as UTF-8 text, so the content is a
  Python \<^verbatim>\<open>str\<close>: a sequence of Unicode code points. A character is modelled by its
  code point and a text by the list of its code points; \<open>str\<close> turns a literal into such
  a text.
\<close>

type_synonym ustr = "nat list"

definition str :: "string \<Rightarrow> ustr" where
  "str s = map of_char s"

definition lparen :: nat where "lparen = 40"
definition rparen :: nat where "rparen = 41"
definition newline :: nat where "newline = 10"
definition space :: nat where "space = 32"
definition dot :: nat where "dot = 46"

text \<open>
  Python's notion of whitespace, shared by the pattern class \<^verbatim>\<open>\s\<close> on \<^verbatim>\<open>str\<close>
  patterns and by \<^verbatim>\<open>str.split()\<close> without arguments: the code points U+0009..U+000D,
  U+001C..U+0020, U+0085, U+00A0, U+1680, U+2000..U+200A, U+2028, U+2029, U+202F, U+205F
  and U+3000.
\<close>

definition isspace :: "nat \<Rightarrow> bool" where
  "isspace c \<longleftrightarrow>
     (9 \<le> c \<and> c \<le> 13) \<or> (28 \<le> c \<and> c \<le> 32) \<or> c = 133 \<or> c = 160 \<or> c = 5760 \<or>
     (8192 \<le> c \<and> c \<le> 8202) \<or> c = 8232 \<or> c = 8233 \<or> c = 8239 \<or> c = 8287 \<or> c = 12288"

text \<open>The three quote characters of the class \<^verbatim>\<open>['\"`]\<close>: apostrophe, double quote, backtick.\<close>

definition isquote :: "nat \<Rightarrow> bool" where
  "isquote c \<longleftrightarrow> c = 39 \<or> c = 34 \<or> c = 96"

section \<open>The pattern \<^verbatim>\<open>toast_pattern\<close>\<close>

text \<open>
  \<^verbatim>\<open>toast(?:\.(success|error|info|warning|loading|custom|message))?\s*\(([\s\S]*?)\)\<close>

  The pattern is matched by backtracking, and each function below is one piece of it,
  applied to the text that remains at the current position. Offsets are relative to that
  remaining text.
\<close>

definition toast :: ustr where
  "toast = str ''toast''"

definition variants :: "ustr list" where
  "variants = [str ''success'', str ''error'', str ''info'', str ''warning'',
               str ''loading'', str ''custom'', str ''message'']"

text \<open>
  \<^verbatim>\<open>[\s\S]*?\)\<close>: the lazy star first tries the closing parenthesis at the current
  character and consumes one more character (of any kind) only when that fails. The
  result is the number of characters taken by the star.
\<close>

fun lazy_close :: "ustr \<Rightarrow> nat option" where
  "lazy_close [] = None"
| "lazy_close (c # cs) =
     (if c = rparen then Some 0 else map_option Suc (lazy_close cs))"

text \<open>
  \<^verbatim>\<open>\s*\(([\s\S]*?)\)\<close>: the greedy star takes a whitespace character and goes on; when
  the rest fails after that it gives the character back and tries the opening
  parenthesis there. The result is the offset at which group 2 starts and the offset
  at which the match ends.
\<close>

fun match_tail :: "ustr \<Rightarrow> (nat \<times> nat) option" where
  "match_tail [] = None"
| "match_tail (c # cs) =
     (case (if isspace c then match_tail cs else None) of
        Some (s2, e) \<Rightarrow> Some (Suc s2, Suc e)
      | None \<Rightarrow>
          (if c = lparen
           then (case lazy_close cs of None \<Rightarrow> None | Some n \<Rightarrow> Some (1, n + 2))
           else None))"

text \<open>
  \<^verbatim>\<open>\.(success|...|message)\<close> followed by the tail: the alternatives are tried in the
  order of the pattern, and an alternative after which the tail fails is given up for
  the next one. The result carries the text of group 1.
\<close>

fun try_variants :: "ustr list \<Rightarrow> ustr \<Rightarrow> (ustr option \<times> nat \<times> nat) option" where
  "try_variants [] r = None"
| "try_variants (v # vs) r =
     (case (if prefix (dot # v) r then match_tail (drop (Suc (length v)) r) else None) of
        Some (s2, e) \<Rightarrow> Some (Some v, Suc (length v) + s2, Suc (length v) + e)
      | None \<Rightarrow> try_variants vs r)"

text \<open>
  The whole pattern at the start of \<open>s\<close>: the literal, then the optional group (tried
  first, as \<^verbatim>\<open>?\<close> is greedy), then the pattern without the group. A match is given by
  group 1 (\<open>None\<close> when the group took no part), the offset where group 2 starts and the
  offset where the match ends.
\<close>

definition match_here :: "ustr \<Rightarrow> (ustr option \<times> nat \<times> nat) option" where
  "match_here s =
     (if prefix toast s
      then (case try_variants variants (drop 5 s) of
              Some (g1, s2, e) \<Rightarrow> Some (g1, 5 + s2, 5 + e)
            | None \<Rightarrow>
                (case match_tail (drop 5 s) of
                   Some (s2, e) \<Rightarrow> Some (None, 5 + s2, 5 + e)
                 | None \<Rightarrow> None))
      else None)"

text \<open>
  A match object: \<^verbatim>\<open>match.start()\<close>, \<^verbatim>\<open>match.end()\<close>, \<^verbatim>\<open>match.group(1)\<close> (\<open>None\<close>
  when the group took no part) and \<^verbatim>\<open>match.start(2)\<close>. Group 2 ends one character
  before the match does, at the closing parenthesis.
\<close>

record rmatch =
  m_start :: nat
  m_end :: nat
  group1 :: "ustr option"
  start2 :: nat

definition match_at :: "ustr \<Rightarrow> nat \<Rightarrow> rmatch option" where
  "match_at content i =
     (case match_here (drop i content) of
        None \<Rightarrow> None
      | Some (g1, s2, e) \<Rightarrow>
          Some \<lparr>m_start = i, m_end = i + e, group1 = g1, start2 = i + s2\<rparr>)"

definition group2 :: "ustr \<Rightarrow> rmatch \<Rightarrow> ustr" where
  "group2 content m = take (m_end m - 1 - start2 m) (drop (start2 m) content)"

lemma lazy_close_le: "lazy_close s = Some n \<Longrightarrow> n < length s"
  by (induction s arbitrary: n) (auto split: if_splits)

lemma match_tail_bounds:
  "match_tail s = Some (s2, e) \<Longrightarrow> 0 < s2 \<and> s2 < e \<and> e \<le> length s"
proof (induction s arbitrary: s2 e)
  case Nil
  then show ?case by simp
next
  case (Cons c cs)
  then show ?case
    by (fastforce split: option.splits if_splits dest: lazy_close_le)
qed

lemma try_variants_bounds:
  "try_variants vs r = Some (g, s2, e) \<Longrightarrow> 0 < s2 \<and> s2 < e \<and> e \<le> length r"
proof (induction vs)
  case Nil
  then show ?case by simp
next
  case (Cons v vs)
  show ?case
  proof (cases "if prefix (dot # v) r then match_tail (drop (Suc (length v)) r) else None")
    case None
    with Cons show ?thesis by simp
  next
    case (Some p)
    obtain a b where p: "p = (a, b)" by (cases p)
    from Some p have pre: "prefix (dot # v) r"
      and mt: "match_tail (drop (Suc (length v)) r) = Some (a, b)"
      by (auto split: if_splits)
    from pre have len: "Suc (length v) \<le> length r"
      by (auto dest: prefix_length_le)
    from match_tail_bounds[OF mt] len Some p Cons.prems show ?thesis
      by auto
  qed
qed

lemma match_here_bounds:
  "match_here s = Some (g, s2, e) \<Longrightarrow> 5 < s2 \<and> s2 < e \<and> e \<le> length s"
proof -
  assume a: "match_here s = Some (g, s2, e)"
  then have pre: "prefix toast s"
    by (auto simp: match_here_def split: if_splits)
  then have len: "5 \<le> length s"
    by (auto dest: prefix_length_le simp: toast_def str_def)
  show ?thesis
  proof (cases "try_variants variants (drop 5 s)")
    case None
    with a pre obtain a' b' where mt: "match_tail (drop 5 s) = Some (a', b')"
      and eq: "s2 = 5 + a'" "e = 5 + b'"
      by (auto simp: match_here_def split: option.splits)
    from match_tail_bounds[OF mt] len eq show ?thesis by auto
  next
    case (Some p)
    obtain g' a' b' where p: "p = (g', a', b')" by (cases p)
    with a pre Some have eq: "s2 = 5 + a'" "e = 5 + b'"
      by (auto simp: match_here_def)
    from try_variants_bounds[of variants "drop 5 s" g' a' b'] Some p len eq show ?thesis
      by auto
  qed
qed

text \<open>
  \<^verbatim>\<open>toast_pattern.finditer(content)\<close>: the search tries the start positions from left
  to right, up to and including the end of the text; after a match it goes on from the
  end of that match. A match of this pattern is never empty, since it contains the
  literal.
\<close>

function finditer_from :: "ustr \<Rightarrow> nat \<Rightarrow> rmatch list" where
  "finditer_from content pos =
     (if length content < pos then []
      else (case match_at content pos of
              Some m \<Rightarrow> m # finditer_from content (m_end m)
            | None \<Rightarrow> finditer_from content (Suc pos)))"
  by pat_completeness auto
termination
proof (relation "measure (\<lambda>(content, pos). Suc (length content) - pos)")
  show "wf (measure (\<lambda>(content, pos). Suc (length content) - pos))" by simp
next
  fix content pos m
  assume le: "\<not> length content < pos" and m: "match_at content pos = Some m"
  from m obtain g s2 e where mh: "match_here (drop pos content) = Some (g, s2, e)"
    and me: "m_end m = pos + e"
    by (auto simp: match_at_def split: option.splits)
  from match_here_bounds[OF mh] have "0 < e" "e \<le> length content - pos" by auto
  with le me show "((content, m_end m), (content, pos))
      \<in> measure (\<lambda>(content, pos). Suc (length content) - pos)"
    by simp
next
  fix content :: ustr and pos :: nat
  assume "\<not> length content < pos"
  then show "((content, Suc pos), (content, pos))
      \<in> measure (\<lambda>(content, pos). Suc (length content) - pos)"
    by simp
qed

declare finditer_from.simps [simp del]

definition finditer :: "ustr \<Rightarrow> rmatch list" where
  "finditer content = finditer_from content 0"

section \<open>The body of the loop over the matches\<close>

text \<open>
  \<^verbatim>\<open>content.count('\n', 0, start_index)\<close>: the number of positions \<open>i\<close> with
  \<open>lo \<le> i < hi\<close>, inside the text, that hold the character.
\<close>

fun count_from :: "nat \<Rightarrow> ustr \<Rightarrow> nat \<Rightarrow> nat \<Rightarrow> nat \<Rightarrow> nat" where
  "count_from c [] i lo hi = 0"
| "count_from c (x # xs) i lo hi =
     (if lo \<le> i \<and> i < hi \<and> x = c then 1 else 0) + count_from c xs (Suc i) lo hi"

definition str_count :: "ustr \<Rightarrow> nat \<Rightarrow> nat \<Rightarrow> nat \<Rightarrow> nat" where
  "str_count content c lo hi = count_from c content 0 lo hi"

text \<open>
  \<^verbatim>\<open>re.findall(r"['\"`].*?['\"`]", args)\<close>. The lazy \<^verbatim>\<open>.*?\<close> first tries a quote
  at the current character and otherwise consumes it, unless it is a newline, which the
  dot does not match. \<open>lazy_quote\<close> gives the number of characters between the quotes.
\<close>

fun lazy_quote :: "ustr \<Rightarrow> nat option" where
  "lazy_quote [] = None"
| "lazy_quote (c # cs) =
     (if isquote c then Some 0
      else if c = newline then None
      else map_option Suc (lazy_quote cs))"

lemma lazy_quote_le: "lazy_quote s = Some n \<Longrightarrow> n < length s"
  by (induction s arbitrary: n) (auto split: if_splits)

function findall_strings :: "ustr \<Rightarrow> ustr list" where
  "findall_strings [] = []"
| "findall_strings (c # cs) =
     (if isquote c
      then (case lazy_quote cs of
              Some n \<Rightarrow> take (n + 2) (c # cs) # findall_strings (drop (Suc n) cs)
            | None \<Rightarrow> findall_strings cs)
      else findall_strings cs)"
  by pat_completeness auto
termination
  by (relation "measure length") auto

text \<open>
  The loop \<^verbatim>\<open>for char in content[params_start_idx:]\<close> with its two variables
  \<^verbatim>\<open>balance\<close> (a Python integer, unbounded) and \<^verbatim>\<open>full_args\<close>; the third argument is
  what is left of the slice. The \<^verbatim>\<open>break\<close> leaves the loop before the character is
  appended.
\<close>

fun balance_loop :: "int \<Rightarrow> ustr \<Rightarrow> ustr \<Rightarrow> ustr" where
  "balance_loop balance full_args [] = full_args"
| "balance_loop balance full_args (char # rest) =
     (let balance' = (if char = lparen then balance + 1
                      else if char = rparen then balance - 1
                      else balance)
      in if balance' < 0 then full_args
         else balance_loop balance' (full_args @ [char]) rest)"

text \<open>
  \<^verbatim>\<open>full_args.split()\<close>: the maximal runs of characters that are not whitespace, in
  order. The first argument is the run being read.
\<close>

fun split_run :: "ustr \<Rightarrow> ustr \<Rightarrow> ustr list" where
  "split_run w [] = (if w = [] then [] else [w])"
| "split_run w (c # cs) =
     (if isspace c then (if w = [] then split_run [] cs else w # split_run [] cs)
      else split_run (w @ [c]) cs)"

definition str_split :: "ustr \<Rightarrow> ustr list" where
  "str_split s = split_run [] s"

text \<open>\<^verbatim>\<open>sep.join(words)\<close>.\<close>

fun str_join :: "ustr \<Rightarrow> ustr list \<Rightarrow> ustr" where
  "str_join sep [] = []"
| "str_join sep [w] = w"
| "str_join sep (w # ws) = w @ sep @ str_join sep ws"

text \<open>The raw argument text of a match: \<^verbatim>\<open>full_args\<close> when the loop is left.\<close>

definition raw_args :: "ustr \<Rightarrow> rmatch \<Rightarrow> ustr" where
  "raw_args content m = balance_loop 0 [] (drop (start2 m) content)"

text \<open>\<^verbatim>\<open>" ".join(full_args.split())\<close>\<close>

definition normalize :: "ustr \<Rightarrow> ustr" where
  "normalize full_args = str_join [space] (str_split full_args)"

text \<open>The two lines under \<^verbatim>\<open># Clean up whitespace\<close>.\<close>

definition summarize :: "ustr \<Rightarrow> ustr" where
  "summarize full_args =
     (let full_args' = normalize full_args
      in if length full_args' > 100 then take 100 full_args' @ str ''...''
         else full_args')"

text \<open>
  The only operation of the body that can raise is the subscript \<^verbatim>\<open>strings[0]\<close>;
  slices, \<^verbatim>\<open>count\<close>, \<^verbatim>\<open>split\<close> and \<^verbatim>\<open>join\<close> are defined on every text.
\<close>

datatype py_error = IndexError

definition subscript :: "'a list \<Rightarrow> nat \<Rightarrow> py_error + 'a" where
  "subscript xs i = (if i < length xs then Inr (xs ! i) else Inl IndexError)"

record usage =
  u_file :: ustr
  u_line :: nat
  u_type :: ustr
  u_args :: ustr

text \<open>
  One pass of the loop \<^verbatim>\<open>for match in matches\<close>, up to the record that is appended
  (its keys \<^verbatim>\<open>file\<close>, \<^verbatim>\<open>line\<close>, \<^verbatim>\<open>type\<close> and \<^verbatim>\<open>args\<close> are the fields of \<open>usage\<close>).
  \<^verbatim>\<open>message\<close> is computed and not used.
\<close>

definition usage_of_match :: "ustr \<Rightarrow> ustr \<Rightarrow> rmatch \<Rightarrow> py_error + usage" where
  "usage_of_match filepath content m =
     (let start_index = m_start m;
          line_number = str_count content newline 0 start_index + 1;
          method = (case group1 m of
                      Some g \<Rightarrow> if g \<noteq> [] then g else str ''default''
                    | None \<Rightarrow> str ''default'');
          strings = findall_strings (group2 content m)
      in case (if strings \<noteq> [] then subscript strings 0
               else Inr (str ''Dynamic/Complex'')) of
           Inl e \<Rightarrow> Inl e
         | Inr message \<Rightarrow>
             Inr \<lparr>u_file = filepath, u_line = line_number, u_type = method,
                  u_args = summarize (raw_args content m)\<rparr>)"

text \<open>
  The loop over the matches inside \<^verbatim>\<open>try\<close>: each record is appended to
  \<^verbatim>\<open>usage_list\<close>; an exception ends the loop, and the records appended before it stay
  in the list.
\<close>

fun for_matches :: "ustr \<Rightarrow> ustr \<Rightarrow> rmatch list \<Rightarrow> usage list \<Rightarrow> usage list \<times> py_error option" where
  "for_matches filepath content [] usage_list = (usage_list, None)"
| "for_matches filepath content (m # ms) usage_list =
     (case usage_of_match filepath content m of
        Inl e \<Rightarrow> (usage_list, Some e)
      | Inr u \<Rightarrow> for_matches filepath content ms (usage_list @ [u]))"

text \<open>
  What \<^verbatim>\<open>find_toast_usages\<close> does with one file that it could read: the records it
  adds to \<^verbatim>\<open>usage_list\<close>, and the exception that its \<^verbatim>\<open>except\<close> clause reports, if
  any.
\<close>

definition scan_content :: "ustr \<Rightarrow> ustr \<Rightarrow> usage list \<Rightarrow> usage list \<times> py_error option" where
  "scan_content filepath content usage_list =
     for_matches filepath content (finditer content) usage_list"

text \<open>
  \<^verbatim>\<open>find_toast_usages\<close> over the files that the walk yields and that could be read,
  each given by its path and its content; the exception of a file is printed and the
  next file is read.
\<close>

fun find_toast_usages_in :: "(ustr \<times> ustr) list \<Rightarrow> usage list \<Rightarrow> usage list" where
  "find_toast_usages_in [] usage_list = usage_list"
| "find_toast_usages_in ((filepath, content) # files) usage_list =
     find_toast_usages_in files (fst (scan_content filepath content usage_list))"

definition find_toast_usages :: "(ustr \<times> ustr) list \<Rightarrow> usage list" where
  "find_toast_usages files = find_toast_usages_in files []"

section \<open>The depth counter of the specification\<close>

text \<open>
  The running parenthesis-depth counter as the specification words it: it starts at 0, an
  opening parenthesis increments it and a closing one decrements it. \<open>depth s\<close> is the
  counter after the characters of \<open>s\<close>.
\<close>

definition depth_step :: "int \<Rightarrow> nat \<Rightarrow> int" where
  "depth_step d c = (if c = lparen then d + 1 else if c = rparen then d - 1 else d)"

definition depth :: "ustr \<Rightarrow> int" where
  "depth s = foldl depth_step 0 s"

section \<open>Derived notions\<close>

text \<open>The records emitted for one file's text, starting from an empty list.\<close>

definition usages :: "ustr \<Rightarrow> ustr \<Rightarrow> usage list" where
  "usages filepath content = fst (scan_content filepath content [])"

text \<open>The record that one pass of the loop appends, as a value.\<close>

definition usage_rec :: "ustr \<Rightarrow> ustr \<Rightarrow> rmatch \<Rightarrow> usage" where
  "usage_rec filepath content m =
     \<lparr>u_file = filepath,
      u_line = str_count content newline 0 (m_start m) + 1,
      u_type = (case group1 m of Some g \<Rightarrow> if g \<noteq> [] then g else str ''default''
                | None \<Rightarrow> str ''default''),
      u_args = summarize (raw_args content m)\<rparr>"

text \<open>A word: a non-empty run of characters without whitespace.\<close>

definition is_word :: "ustr \<Rightarrow> bool" where
  "is_word w \<longleftrightarrow> w \<noteq> [] \<and> (\<forall>c\<in>set w. \<not> isspace c)"

section \<open>The records of a text\<close>

lemma usage_of_match_Inr: "usage_of_match filepath content m = Inr (usage_rec filepath content m)"
  by (simp add: usage_of_match_def usage_rec_def subscript_def Let_def)

lemma for_matches_eq:
  "for_matches filepath content ms acc = (acc @ map (usage_rec filepath content) ms, None)"
  by (induction ms arbitrary: acc) (simp_all add: usage_of_match_Inr)

lemma scan_content_eq:
  "scan_content filepath content acc = (acc @ map (usage_rec filepath content) (finditer content), None)"
  by (simp add: scan_content_def for_matches_eq)

lemma usages_eq: "usages filepath content = map (usage_rec filepath content) (finditer content)"
  by (simp add: usages_def scan_content_eq)

lemma usages_nth:
  "i < length (finditer content) \<Longrightarrow>
     usages filepath content ! i = usage_rec filepath content (finditer content ! i)"
  by (simp add: usages_eq)

lemma length_usages: "length (usages filepath content) = length (finditer content)"
  by (simp add: usages_eq)

lemma usages_mem:
  "u \<in> set (usages filepath content) \<Longrightarrow>
     \<exists>m\<in>set (finditer content). u = usage_rec filepath content m"
  by (auto simp: usages_eq)

lemma usage_type_of_match:
  "i < length (finditer content) \<Longrightarrow>
     u_type (usages filepath content ! i) =
       (case group1 (finditer content ! i) of
          Some g \<Rightarrow> if g \<noteq> [] then g else str ''default''
        | None \<Rightarrow> str ''default'')"
  by (simp add: usages_nth usage_rec_def)

lemma count_from_filter:
  "count_from c xs i 0 hi = length (filter (\<lambda>x. x = c) (take (hi - i) xs))"
proof (induction xs arbitrary: i)
  case Nil
  then show ?case by simp
next
  case (Cons x xs)
  show ?case
  proof (cases "i < hi")
    case True
    then have "hi - i = Suc (hi - Suc i)" by simp
    with Cons[of "Suc i"] True show ?thesis by simp
  next
    case False
    with Cons[of "Suc i"] show ?thesis by simp
  qed
qed

lemma str_count_filter:
  "str_count content c 0 hi = length (filter (\<lambda>x. x = c) (take hi content))"
  by (simp add: str_count_def count_from_filter)


section \<open>The loop over the argument text\<close>

lemma balance_loop_whole:
  "(\<forall>p\<in>set (prefixes s). 0 \<le> foldl depth_step b p) \<Longrightarrow> balance_loop b acc s = acc @ s"
proof (induction s arbitrary: b acc)
  case Nil
  then show ?case by simp
next
  case (Cons c cs)
  from Cons.prems have step: "\<forall>p\<in>set (prefixes cs). 0 \<le> foldl depth_step (depth_step b c) p"
    by simp
  have "[] \<in> set (prefixes cs)" by simp
  with step have "0 \<le> foldl depth_step (depth_step b c) []" by (rule bspec)
  then have "0 \<le> depth_step b c" by simp
  with Cons.IH[OF step, of "acc @ [c]"] show ?case
    by (simp add: depth_step_def Let_def)
qed

lemma balance_loop_closer:
  assumes "foldl depth_step b pre = 0"
    and "\<forall>p\<in>set (prefixes pre). \<not> (prefix (p @ [rparen]) pre \<and> foldl depth_step b p = 0)"
    and "0 \<le> b"
  shows "balance_loop b acc (pre @ rparen # post) = acc @ pre"
  using assms
proof (induction pre arbitrary: b acc)
  case Nil
  then show ?case by (simp add: lparen_def rparen_def)
next
  case (Cons c cs)
  have "[] \<in> set (prefixes (c # cs))" by simp
  with Cons.prems(2) have "\<not> (prefix ([] @ [rparen]) (c # cs) \<and> foldl depth_step b [] = 0)"
    by (rule bspec)
  then have first: "\<not> (c = rparen \<and> b = 0)"
    by simp
  with Cons.prems(3) have nonneg: "0 \<le> depth_step b c"
    by (auto simp: depth_step_def)
  from Cons.prems(1) have d: "foldl depth_step (depth_step b c) cs = 0" by simp
  from Cons.prems(2)
  have rest: "\<forall>p\<in>set (prefixes cs). \<not> (prefix (p @ [rparen]) cs \<and> foldl depth_step (depth_step b c) p = 0)"
    by simp
  from Cons.IH[OF d rest nonneg, of "acc @ [c]"] nonneg show ?case
    by (simp add: depth_step_def Let_def)
qed


section \<open>The pattern as a decomposition of the text\<close>

lemma lazy_close_decomp:
  "lazy_close s = Some n \<Longrightarrow> \<exists>a post. s = a @ rparen # post \<and> rparen \<notin> set a \<and> n = length a"
proof (induction s arbitrary: n)
  case Nil
  then show ?case by simp
next
  case (Cons c cs)
  show ?case
  proof (cases "c = rparen")
    case True
    with Cons.prems have "n = 0" by simp
    with True have "c # cs = [] @ rparen # cs \<and> rparen \<notin> set [] \<and> n = length ([]::ustr)"
      by simp
    then show ?thesis by blast
  next
    case False
    with Cons.prems obtain k where k: "lazy_close cs = Some k" "n = Suc k"
      by auto
    from Cons.IH[OF k(1)] obtain a post where "cs = a @ rparen # post" "rparen \<notin> set a" "k = length a"
      by blast
    with False k(2) have "c # cs = (c # a) @ rparen # post \<and> rparen \<notin> set (c # a) \<and> n = length (c # a)"
      by simp
    then show ?thesis by blast
  qed
qed

lemma lazy_close_append:
  "rparen \<notin> set a \<Longrightarrow> lazy_close (a @ rparen # post) = Some (length a)"
  by (induction a) auto

lemma not_isspace_lparen: "\<not> isspace lparen"
  by (simp add: isspace_def lparen_def)

lemma match_tail_decomp:
  "match_tail s = Some (s2, e) \<Longrightarrow>
     \<exists>ws a post. s = ws @ lparen # a @ rparen # post \<and> (\<forall>c\<in>set ws. isspace c) \<and>
       rparen \<notin> set a \<and> s2 = Suc (length ws) \<and> e = length ws + length a + 2"
proof (induction s arbitrary: s2 e)
  case Nil
  then show ?case by simp
next
  case (Cons c cs)
  show ?case
  proof (cases "isspace c")
    case True
    then have "c \<noteq> lparen" using not_isspace_lparen by auto
    with Cons.prems True obtain s2' e' where r: "match_tail cs = Some (s2', e')"
      and eq: "s2 = Suc s2'" "e = Suc e'"
      by (auto split: option.splits)
    from Cons.IH[OF r] obtain ws a post where d: "cs = ws @ lparen # a @ rparen # post"
      "\<forall>c\<in>set ws. isspace c" "rparen \<notin> set a" "s2' = Suc (length ws)" "e' = length ws + length a + 2"
      by blast
    with True eq have "c # cs = (c # ws) @ lparen # a @ rparen # post \<and> (\<forall>x\<in>set (c # ws). isspace x) \<and>
       rparen \<notin> set a \<and> s2 = Suc (length (c # ws)) \<and> e = length (c # ws) + length a + 2"
      by simp
    then show ?thesis by blast
  next
    case False
    with Cons.prems obtain n where c: "c = lparen" and lc: "lazy_close cs = Some n"
      and eq: "s2 = 1" "e = n + 2"
      by (auto split: option.splits if_splits)
    from lazy_close_decomp[OF lc] obtain a post where "cs = a @ rparen # post" "rparen \<notin> set a" "n = length a"
      by blast
    with c eq have "c # cs = [] @ lparen # a @ rparen # post \<and> (\<forall>x\<in>set ([]::ustr). isspace x) \<and>
       rparen \<notin> set a \<and> s2 = Suc (length ([]::ustr)) \<and> e = length ([]::ustr) + length a + 2"
      by simp
    then show ?thesis by blast
  qed
qed

lemma match_tail_append:
  "\<forall>c\<in>set ws. isspace c \<Longrightarrow> rparen \<notin> set a \<Longrightarrow>
     match_tail (ws @ lparen # a @ rparen # post) = Some (Suc (length ws), length ws + length a + 2)"
  by (induction ws) (simp_all add: lazy_close_append not_isspace_lparen)

lemma try_variants_decomp:
  "try_variants vs r = Some (g, s2, e) \<Longrightarrow>
     \<exists>v a b. v \<in> set vs \<and> g = Some v \<and> prefix (dot # v) r \<and>
       match_tail (drop (Suc (length v)) r) = Some (a, b) \<and>
       s2 = Suc (length v) + a \<and> e = Suc (length v) + b"
proof (induction vs)
  case Nil
  then show ?case by simp
next
  case (Cons v vs)
  show ?case
  proof (cases "if prefix (dot # v) r then match_tail (drop (Suc (length v)) r) else None")
    case None
    with Cons.prems have "try_variants vs r = Some (g, s2, e)" by simp
    from Cons.IH[OF this] show ?thesis by auto
  next
    case (Some p)
    obtain a b where p: "p = (a, b)" by (cases p)
    from Some p have "prefix (dot # v) r" "match_tail (drop (Suc (length v)) r) = Some (a, b)"
      by (auto split: if_splits)
    moreover from Some p Cons.prems have "g = Some v" "s2 = Suc (length v) + a" "e = Suc (length v) + b"
      by auto
    ultimately show ?thesis by auto
  qed
qed

lemma try_variants_None:
  "(\<forall>v\<in>set vs. prefix (dot # v) r \<longrightarrow> match_tail (drop (Suc (length v)) r) = None) \<Longrightarrow>
     try_variants vs r = None"
  by (induction vs) auto

lemma try_variants_first:
  assumes "v \<in> set vs"
    and "prefix (dot # v) r"
    and "match_tail (drop (Suc (length v)) r) = Some (a, b)"
    and "\<forall>v'\<in>set vs. prefix (dot # v') r \<and> match_tail (drop (Suc (length v')) r) \<noteq> None \<longrightarrow> v' = v"
  shows "try_variants vs r = Some (Some v, Suc (length v) + a, Suc (length v) + b)"
  using assms
proof (induction vs)
  case Nil
  then show ?case by simp
next
  case (Cons w ws)
  show ?case
  proof (cases "w = v")
    case True
    with Cons.prems(2,3) show ?thesis by simp
  next
    case False
    have "w \<in> set (w # ws)" by simp
    with Cons.prems(4)
    have "prefix (dot # w) r \<and> match_tail (drop (Suc (length w)) r) \<noteq> None \<longrightarrow> w = v"
      by (rule bspec)
    with False have "\<not> (prefix (dot # w) r \<and> match_tail (drop (Suc (length w)) r) \<noteq> None)"
      by blast
    then have skip: "(if prefix (dot # w) r then match_tail (drop (Suc (length w)) r) else None) = None"
      by (cases "match_tail (drop (Suc (length w)) r)") simp_all
    from False Cons.prems(1) have mem: "v \<in> set ws" by simp
    from Cons.prems(4)
    have rest: "\<forall>v'\<in>set ws. prefix (dot # v') r \<and> match_tail (drop (Suc (length v')) r) \<noteq> None \<longrightarrow> v' = v"
      by (meson list.set_intros(2))
    have "try_variants (w # ws) r = try_variants ws r"
      using skip by (simp only: try_variants.simps option.case)
    with Cons.IH[OF mem Cons.prems(2,3) rest] show ?thesis
      by (simp only:)
  qed
qed

lemma length_toast: "length toast = 5"
  by (simp add: toast_def str_def)

lemma match_here_decomp:
  assumes "match_here s = Some (g, s2, e)"
  shows "\<exists>mid ws a post. s = toast @ mid @ ws @ lparen # a @ rparen # post \<and>
           ((g = None \<and> mid = []) \<or> (\<exists>v\<in>set variants. g = Some v \<and> mid = dot # v)) \<and>
           (\<forall>c\<in>set ws. isspace c) \<and> rparen \<notin> set a \<and>
           s2 = 5 + length mid + length ws + 1 \<and> e = s2 + length a + 1"
proof -
  from assms have pre: "prefix toast s"
    by (auto simp: match_here_def split: if_splits)
  then have s: "s = toast @ drop 5 s"
    by (metis append_eq_conv_conj length_toast prefix_def)
  show ?thesis
  proof (cases "try_variants variants (drop 5 s)")
    case None
    with assms pre obtain a' b' where mt: "match_tail (drop 5 s) = Some (a', b')"
      and eq: "g = None" "s2 = 5 + a'" "e = 5 + b'"
      by (auto simp: match_here_def split: option.splits)
    from match_tail_decomp[OF mt] obtain ws a post where
      d: "drop 5 s = ws @ lparen # a @ rparen # post" "\<forall>c\<in>set ws. isspace c" "rparen \<notin> set a"
         "a' = Suc (length ws)" "b' = length ws + length a + 2"
      by blast
    from s d(1) have "s = toast @ [] @ ws @ lparen # a @ rparen # post" by simp
    moreover from eq d(4,5) have "s2 = 5 + length ([]::ustr) + length ws + 1 \<and> e = s2 + length a + 1"
      by simp
    ultimately show ?thesis using eq(1) d(2,3) by blast
  next
    case (Some p)
    obtain g' a' b' where p: "p = (g', a', b')" by (cases p)
    with assms pre Some have eq: "g = g'" "s2 = 5 + a'" "e = 5 + b'"
      by (auto simp: match_here_def)
    from Some p have "try_variants variants (drop 5 s) = Some (g', a', b')" by simp
    from try_variants_decomp[OF this] obtain v a0 b0 where
      v: "v \<in> set variants" "g' = Some v" "prefix (dot # v) (drop 5 s)"
         "match_tail (drop (Suc (length v)) (drop 5 s)) = Some (a0, b0)"
         "a' = Suc (length v) + a0" "b' = Suc (length v) + b0"
      by blast
    from v(3) have r: "drop 5 s = (dot # v) @ drop (Suc (length v)) (drop 5 s)"
      by (metis append_eq_conv_conj length_Cons prefix_def)
    from match_tail_decomp[OF v(4)] obtain ws a post where
      d: "drop (Suc (length v)) (drop 5 s) = ws @ lparen # a @ rparen # post"
         "\<forall>c\<in>set ws. isspace c" "rparen \<notin> set a"
         "a0 = Suc (length ws)" "b0 = length ws + length a + 2"
      by blast
    from s r d(1) have "s = toast @ (dot # v) @ ws @ lparen # a @ rparen # post"
      by (metis append.assoc)
    moreover from eq v(5,6) d(4,5)
    have "s2 = 5 + length (dot # v) + length ws + 1 \<and> e = s2 + length a + 1"
      by simp
    moreover from v(1,2) eq(1) have "\<exists>v'\<in>set variants. g = Some v' \<and> dot # v = dot # v'"
      by blast
    ultimately show ?thesis using d(2,3) by blast
  qed
qed

lemma not_isspace_dot: "\<not> isspace dot"
  by (simp add: isspace_def dot_def)

lemma dot_neq_lparen: "dot \<noteq> lparen"
  by (simp add: dot_def lparen_def)

lemma variants_plain: "v \<in> set variants \<Longrightarrow> c \<in> set v \<Longrightarrow> \<not> isspace c \<and> c \<noteq> lparen"
  by (auto simp: variants_def str_def isspace_def lparen_def)

lemma variants_nonempty: "v \<in> set variants \<Longrightarrow> v \<noteq> []"
  by (auto simp: variants_def str_def)

lemma success_variant: "str ''success'' \<in> set variants"
  by (simp add: variants_def)

lemma hd_call_tail:
  "\<forall>c\<in>set ws. isspace c \<Longrightarrow> isspace (hd (ws @ lparen # t)) \<or> hd (ws @ lparen # t) = lparen"
  by (cases ws) simp_all

text \<open>
  A member name without whitespace and parentheses, followed by the tail of a call, is
  matched by exactly one name: a shorter one leaves a character that the tail does not
  accept, and a longer one would have to contain whitespace or a parenthesis.
\<close>

lemma member_unique:
  assumes v: "\<forall>c\<in>set v. \<not> isspace c \<and> c \<noteq> lparen"
    and mem: "\<forall>c\<in>set mem. \<not> isspace c \<and> c \<noteq> lparen"
    and ws: "\<forall>c\<in>set ws. isspace c"
    and pre: "prefix v (mem @ ws @ lparen # t)"
    and tail: "match_tail (drop (length v) (mem @ ws @ lparen # t)) \<noteq> None"
  shows "v = mem"
proof -
  consider (short) "length v < length mem" | (long) "length mem < length v"
    | (same) "length v = length mem"
    by linarith
  then show ?thesis
  proof cases
    case short
    then obtain c cs where d: "drop (length v) mem = c # cs"
      by (cases "drop (length v) mem") auto
    then have "c \<in> set mem" by (metis in_set_dropD list.set_intros(1))
    with mem have c: "\<not> isspace c" "c \<noteq> lparen" by auto
    from short d have "drop (length v) (mem @ ws @ lparen # t) = c # cs @ ws @ lparen # t"
      by simp
    with tail c show ?thesis by simp
  next
    case long
    from pre obtain z where z: "mem @ ws @ lparen # t = v @ z"
      by (auto simp: prefix_def)
    from long z have "take (length mem) v = mem"
      by (metis append_eq_conv_conj less_imp_le_nat take_append take_all_iff order_refl
          append_Nil2 diff_is_0_eq take_0)
    then obtain x where x: "v = mem @ x" by (metis append_take_drop_id)
    with long have "x \<noteq> []" by auto
    from x z have "ws @ lparen # t = x @ z" by simp
    with \<open>x \<noteq> []\<close> have "hd x = hd (ws @ lparen # t)" by (cases x) auto
    with hd_call_tail[OF ws, of t] have "isspace (hd x) \<or> hd x = lparen" by simp
    moreover from x \<open>x \<noteq> []\<close> have "hd x \<in> set v" by (cases x) auto
    ultimately show ?thesis using v by blast
  next
    case same
    with pre show ?thesis by (auto simp: prefix_def)
  qed
qed

lemma try_variants_bare:
  assumes "\<forall>c\<in>set ws. isspace c"
  shows "try_variants vs (ws @ lparen # t) = None"
proof (rule try_variants_None, intro ballI impI)
  fix v
  assume "prefix (dot # v) (ws @ lparen # t)"
  then have "hd (ws @ lparen # t) = dot" by (auto simp: prefix_def)
  with hd_call_tail[OF assms, of t] not_isspace_dot dot_neq_lparen
  show "match_tail (drop (Suc (length v)) (ws @ lparen # t)) = None"
    by auto
qed

lemma match_here_bare:
  assumes ws: "\<forall>c\<in>set ws. isspace c" and a: "rparen \<notin> set a"
  shows "match_here (toast @ ws @ lparen # a @ rparen # post) =
           Some (None, 5 + length ws + 1, 5 + length ws + length a + 2)"
proof -
  have "drop 5 (toast @ ws @ lparen # a @ rparen # post) = ws @ lparen # a @ rparen # post"
    by (simp add: length_toast)
  then show ?thesis
    using try_variants_bare[OF ws, of variants "a @ rparen # post"] match_tail_append[OF ws a, of post]
    by (simp add: match_here_def)
qed

lemma match_here_variant:
  assumes v: "v \<in> set variants" and ws: "\<forall>c\<in>set ws. isspace c" and a: "rparen \<notin> set a"
  shows "match_here (toast @ dot # v @ ws @ lparen # a @ rparen # post) =
           Some (Some v, 5 + Suc (length v) + length ws + 1, 5 + Suc (length v) + length ws + length a + 2)"
proof -
  let ?r = "dot # v @ ws @ lparen # a @ rparen # post"
  have d: "drop 5 (toast @ ?r) = ?r"
    by (simp add: length_toast)
  have p: "prefix (dot # v) ?r" by simp
  have t: "match_tail (drop (Suc (length v)) ?r) = Some (Suc (length ws), length ws + length a + 2)"
    using match_tail_append[OF ws a, of post] by simp
  have u: "\<forall>v'\<in>set variants. prefix (dot # v') ?r \<and> match_tail (drop (Suc (length v')) ?r) \<noteq> None \<longrightarrow> v' = v"
  proof (intro ballI impI)
    fix v'
    assume v': "v' \<in> set variants"
      and h: "prefix (dot # v') ?r \<and> match_tail (drop (Suc (length v')) ?r) \<noteq> None"
    from h have "prefix v' (v @ ws @ lparen # a @ rparen # post)"
      and "match_tail (drop (length v') (v @ ws @ lparen # a @ rparen # post)) \<noteq> None"
      by simp_all
    then show "v' = v"
      using member_unique[of v' v ws "a @ rparen # post"] variants_plain[OF v'] variants_plain[OF v] ws
      by blast
  qed
  from try_variants_first[OF v p t u] d show ?thesis
    by (simp add: match_here_def)
qed

lemma match_here_unknown_member:
  assumes mem: "\<forall>c\<in>set mem. \<not> isspace c \<and> c \<noteq> lparen" and new: "mem \<notin> set variants"
    and ws: "\<forall>c\<in>set ws. isspace c"
  shows "match_here (toast @ dot # mem @ ws @ lparen # t) = None"
proof -
  let ?r = "dot # mem @ ws @ lparen # t"
  have d: "drop 5 (toast @ ?r) = ?r"
    by (simp add: length_toast)
  have "try_variants variants ?r = None"
  proof (rule try_variants_None, intro ballI impI)
    fix v
    assume v: "v \<in> set variants" and p: "prefix (dot # v) ?r"
    show "match_tail (drop (Suc (length v)) ?r) = None"
    proof (rule ccontr)
      assume "match_tail (drop (Suc (length v)) ?r) \<noteq> None"
      with p have "prefix v (mem @ ws @ lparen # t)"
        and "match_tail (drop (length v) (mem @ ws @ lparen # t)) \<noteq> None"
        by simp_all
      then have "v = mem"
        using member_unique[of v mem ws t] variants_plain[OF v] mem ws by blast
      with v new show False by simp
    qed
  qed
  moreover have "match_tail ?r = None"
    using not_isspace_dot dot_neq_lparen by simp
  ultimately show ?thesis using d
    by (simp add: match_here_def)
qed


section \<open>The search for matches\<close>

lemma match_at_start: "match_at content i = Some m \<Longrightarrow> m_start m = i"
  by (auto simp: match_at_def split: option.splits)

lemma match_at_span:
  "match_at content i = Some m \<Longrightarrow> i + 5 < start2 m \<and> start2 m < m_end m \<and> m_end m \<le> length content"
proof -
  assume a: "match_at content i = Some m"
  then obtain g s2 e where mh: "match_here (drop i content) = Some (g, s2, e)"
    and m: "m = \<lparr>m_start = i, m_end = i + e, group1 = g, start2 = i + s2\<rparr>"
    by (auto simp: match_at_def split: option.splits)
  from match_here_bounds[OF mh] m show ?thesis by auto
qed

lemma match_at_append:
  "match_here s = Some (g, s2, e) \<Longrightarrow>
     match_at (pre @ s) (length pre) =
       Some \<lparr>m_start = length pre, m_end = length pre + e, group1 = g, start2 = length pre + s2\<rparr>"
  by (simp add: match_at_def)

lemma match_at_append_None:
  "match_here s = None \<Longrightarrow> match_at (pre @ s) (length pre) = None"
  by (simp add: match_at_def)

lemma match_at_shape:
  assumes "match_at content i = Some m"
  shows "\<exists>mid ws a post. drop i content = toast @ mid @ ws @ lparen # a @ rparen # post \<and>
           ((group1 m = None \<and> mid = []) \<or> (\<exists>v\<in>set variants. group1 m = Some v \<and> mid = dot # v)) \<and>
           (\<forall>c\<in>set ws. isspace c) \<and> rparen \<notin> set a \<and>
           m_start m = i \<and> start2 m = i + 5 + length mid + length ws + 1 \<and>
           m_end m = start2 m + length a + 1 \<and>
           drop (start2 m) content = a @ rparen # post \<and>
           content ! (start2 m - 1) = lparen"
proof -
  from assms obtain g s2 e where mh: "match_here (drop i content) = Some (g, s2, e)"
    and m: "m = \<lparr>m_start = i, m_end = i + e, group1 = g, start2 = i + s2\<rparr>"
    by (auto simp: match_at_def split: option.splits)
  from match_here_decomp[OF mh] obtain mid ws a post where
    d: "drop i content = toast @ mid @ ws @ lparen # a @ rparen # post"
    and g: "(g = None \<and> mid = []) \<or> (\<exists>v\<in>set variants. g = Some v \<and> mid = dot # v)"
    and w: "\<forall>c\<in>set ws. isspace c" "rparen \<notin> set a"
    and s2: "s2 = 5 + length mid + length ws + 1" and e: "e = s2 + length a + 1"
    by blast
  have "drop (i + s2) content = drop s2 (drop i content)"
    by (simp add: add.commute)
  also have "\<dots> = a @ rparen # post"
    using d s2 by (simp add: length_toast)
  finally have rest: "drop (i + s2) content = a @ rparen # post" .
  define k where "k = 5 + length mid + length ws"
  have "drop (i + k) content = drop k (drop i content)"
    by (simp add: add.commute)
  also have "\<dots> = lparen # a @ rparen # post"
    using d by (simp add: length_toast k_def)
  finally have "drop (i + k) content = lparen # a @ rparen # post" .
  moreover have "i + s2 - 1 = i + k" using s2 by (simp add: k_def)
  ultimately have "drop (i + s2 - 1) content = lparen # a @ rparen # post" by simp
  then have "content ! (i + s2 - 1) = lparen"
    by (metis nth_via_drop)
  with d g w s2 e rest m
  have "drop i content = toast @ mid @ ws @ lparen # a @ rparen # post \<and>
           ((group1 m = None \<and> mid = []) \<or> (\<exists>v\<in>set variants. group1 m = Some v \<and> mid = dot # v)) \<and>
           (\<forall>c\<in>set ws. isspace c) \<and> rparen \<notin> set a \<and>
           m_start m = i \<and> start2 m = i + 5 + length mid + length ws + 1 \<and>
           m_end m = start2 m + length a + 1 \<and>
           drop (start2 m) content = a @ rparen # post \<and>
           content ! (start2 m - 1) = lparen"
    by simp
  then show ?thesis by blast
qed

lemma finditer_from_sound:
  "m \<in> set (finditer_from content pos) \<Longrightarrow> pos \<le> m_start m \<and> match_at content (m_start m) = Some m"
proof (induction content pos rule: finditer_from.induct)
  case (1 content pos)
  show ?case
  proof (cases "length content < pos")
    case True
    with "1.prems" show ?thesis by (simp add: finditer_from.simps)
  next
    case False
    show ?thesis
    proof (cases "match_at content pos")
      case None
      with False "1.prems" have "m \<in> set (finditer_from content (Suc pos))"
        by (simp add: finditer_from.simps[of content pos])
      from "1.IH"(1)[OF False None this] show ?thesis by simp
    next
      case (Some m0)
      with False "1.prems" have "m = m0 \<or> m \<in> set (finditer_from content (m_end m0))"
        by (simp add: finditer_from.simps[of content pos])
      then show ?thesis
      proof
        assume "m = m0"
        with Some match_at_start[OF Some] show ?thesis by simp
      next
        assume "m \<in> set (finditer_from content (m_end m0))"
        from "1.IH"(2)[OF False Some this] match_at_span[OF Some] show ?thesis by simp
      qed
    qed
  qed
qed

lemma finditer_from_apart:
  "m \<in> set (finditer_from content pos) \<Longrightarrow> m' \<in> set (finditer_from content pos) \<Longrightarrow>
     m_start m < m_start m' \<Longrightarrow> m_end m \<le> m_start m'"
proof (induction content pos rule: finditer_from.induct)
  case (1 content pos)
  show ?case
  proof (cases "length content < pos")
    case True
    with "1.prems" show ?thesis by (simp add: finditer_from.simps)
  next
    case False
    show ?thesis
    proof (cases "match_at content pos")
      case None
      with False "1.prems" have "m \<in> set (finditer_from content (Suc pos))"
        "m' \<in> set (finditer_from content (Suc pos))"
        by (simp_all add: finditer_from.simps[of content pos])
      from "1.IH"(1)[OF False None this "1.prems"(3)] show ?thesis .
    next
      case (Some m0)
      from Some False "1.prems"(1) have m: "m = m0 \<or> m \<in> set (finditer_from content (m_end m0))"
        by (simp add: finditer_from.simps[of content pos])
      from Some False "1.prems"(2) have m': "m' = m0 \<or> m' \<in> set (finditer_from content (m_end m0))"
        by (simp add: finditer_from.simps[of content pos])
      have s0: "m_start m0 = pos" "pos < m_end m0"
        using match_at_start[OF Some] match_at_span[OF Some] by simp_all
      show ?thesis
      proof (cases "m = m0")
        case True
        with "1.prems"(3) m' have "m' \<in> set (finditer_from content (m_end m0))" by auto
        from finditer_from_sound[OF this] True show ?thesis by simp
      next
        case mF: False
        with m have min: "m \<in> set (finditer_from content (m_end m0))" by simp
        show ?thesis
        proof (cases "m' = m0")
          case True
          from finditer_from_sound[OF min] s0 True "1.prems"(3) show ?thesis by simp
        next
          case False
          with m' have "m' \<in> set (finditer_from content (m_end m0))" by simp
          from "1.IH"(2)[OF \<open>\<not> length content < pos\<close> Some min this "1.prems"(3)] show ?thesis .
        qed
      qed
    qed
  qed
qed

lemma finditer_from_complete:
  "match_at content p = Some m \<Longrightarrow> pos \<le> p \<Longrightarrow>
     (\<forall>m'\<in>set (finditer_from content pos). \<not> (m_start m' < p \<and> p < m_end m')) \<Longrightarrow>
     m \<in> set (finditer_from content pos)"
proof (induction content pos rule: finditer_from.induct)
  case (1 content pos)
  from match_at_span[OF "1.prems"(1)] have plen: "p < length content" by simp
  with "1.prems"(2) have False: "\<not> length content < pos" by simp
  show ?case
  proof (cases "match_at content pos")
    case None
    with "1.prems"(1,2) have le: "Suc pos \<le> p"
      by (cases "pos = p") auto
    from None False have eq: "finditer_from content pos = finditer_from content (Suc pos)"
      by (simp add: finditer_from.simps[of content pos])
    from "1.IH"(1)[OF False None "1.prems"(1) le] "1.prems"(3) eq show ?thesis by simp
  next
    case (Some m0)
    from Some False have eq: "finditer_from content pos = m0 # finditer_from content (m_end m0)"
      by (simp add: finditer_from.simps[of content pos])
    show ?thesis
    proof (cases "pos = p")
      case True
      with Some "1.prems"(1) eq show ?thesis by simp
    next
      case neq: False
      with "1.prems"(2) have "pos < p" by simp
      moreover from eq "1.prems"(3) have "\<not> (m_start m0 < p \<and> p < m_end m0)" by simp
      ultimately have le: "m_end m0 \<le> p" using match_at_start[OF Some] by simp
      from eq "1.prems"(3)
      have "\<forall>m'\<in>set (finditer_from content (m_end m0)). \<not> (m_start m' < p \<and> p < m_end m')"
        by simp
      from "1.IH"(2)[OF False Some "1.prems"(1) le this] eq show ?thesis by simp
    qed
  qed
qed

lemma finditer_sound:
  "m \<in> set (finditer content) \<Longrightarrow> match_at content (m_start m) = Some m"
  using finditer_from_sound[of m content 0] by (simp add: finditer_def)

lemma finditer_apart:
  "m \<in> set (finditer content) \<Longrightarrow> m' \<in> set (finditer content) \<Longrightarrow>
     m_start m < m_start m' \<Longrightarrow> m_end m \<le> m_start m'"
  using finditer_from_apart[of m content 0 m'] by (simp add: finditer_def)

lemma finditer_complete:
  assumes "match_at content p = Some m"
    and "\<forall>m'\<in>set (finditer content). \<not> (m_start m' < p \<and> p < m_end m')"
  shows "m \<in> set (finditer content)"
  using finditer_from_complete[of content p m 0] assms by (simp add: finditer_def)

lemma finditer_shape:
  assumes "m \<in> set (finditer content)"
  shows "\<exists>a post. drop (start2 m) content = a @ rparen # post \<and> rparen \<notin> set a \<and>
           m_end m = start2 m + length a + 1 \<and> content ! (start2 m - 1) = lparen \<and>
           m_start m < start2 m \<and> prefix toast (drop (m_start m) content)"
proof -
  from match_at_shape[OF finditer_sound[OF assms]] obtain mid ws a post where
    "drop (m_start m) content = toast @ mid @ ws @ lparen # a @ rparen # post"
    "start2 m = m_start m + 5 + length mid + length ws + 1"
    "m_end m = start2 m + length a + 1" "rparen \<notin> set a"
    "drop (start2 m) content = a @ rparen # post" "content ! (start2 m - 1) = lparen"
    by blast
  then show ?thesis by auto
qed

lemma finditer_needs_closer:
  assumes "m \<in> set (finditer content)"
  shows "rparen \<in> set (drop (m_start m) content)"
proof -
  from match_at_shape[OF finditer_sound[OF assms]] obtain mid ws a post where
    "drop (m_start m) content = toast @ mid @ ws @ lparen # a @ rparen # post"
    by blast
  then show ?thesis by simp
qed

lemma candidate_gives_record:
  assumes "match_here s = Some (g, s2, e)"
    and "\<forall>m\<in>set (finditer (pre @ s)). \<not> (m_start m < length pre \<and> length pre < m_end m)"
  shows "\<exists>i<length (finditer (pre @ s)). m_start (finditer (pre @ s) ! i) = length pre \<and>
           group1 (finditer (pre @ s) ! i) = g"
proof -
  let ?m = "\<lparr>m_start = length pre, m_end = length pre + e, group1 = g, start2 = length pre + s2\<rparr>"
  from finditer_complete[OF match_at_append[OF assms(1)] assms(2)]
  have "?m \<in> set (finditer (pre @ s))" .
  then obtain i where "i < length (finditer (pre @ s))" "finditer (pre @ s) ! i = ?m"
    by (auto simp: in_set_conv_nth)
  then show ?thesis by auto
qed


section \<open>Splitting, joining and the summary\<close>

lemma isspace_space: "isspace space"
  by (simp add: isspace_def space_def)

lemma isspace_newline: "isspace newline"
  by (simp add: isspace_def newline_def)

lemma split_run_words:
  "\<forall>c\<in>set w. \<not> isspace c \<Longrightarrow> u \<in> set (split_run w s) \<Longrightarrow> is_word u"
proof (induction s arbitrary: w)
  case Nil
  then show ?case by (auto simp: is_word_def split: if_splits)
next
  case (Cons c cs)
  show ?case
  proof (cases "isspace c")
    case True
    with Cons.prems(2) have "(w \<noteq> [] \<and> u = w) \<or> u \<in> set (split_run [] cs)"
      by (auto split: if_splits)
    then show ?thesis
    proof
      assume "w \<noteq> [] \<and> u = w"
      with Cons.prems(1) show ?thesis by (simp add: is_word_def)
    next
      assume "u \<in> set (split_run [] cs)"
      with Cons.IH[of "[]"] show ?thesis by simp
    qed
  next
    case False
    with Cons.prems(2) have "u \<in> set (split_run (w @ [c]) cs)" by simp
    moreover from False Cons.prems(1) have "\<forall>x\<in>set (w @ [c]). \<not> isspace x" by simp
    ultimately show ?thesis using Cons.IH[of "w @ [c]"] by blast
  qed
qed

lemma str_split_words: "u \<in> set (str_split s) \<Longrightarrow> is_word u"
  using split_run_words[of "[]" u s] by (simp add: str_split_def)

lemma split_run_word:
  "\<forall>c\<in>set u. \<not> isspace c \<Longrightarrow> split_run w (u @ rest) = split_run (w @ u) rest"
  by (induction u arbitrary: w) simp_all

lemma str_split_join:
  "\<forall>w\<in>set ws. is_word w \<Longrightarrow> str_split (str_join [space] ws) = ws"
proof (induction ws rule: induct_list012)
  case 1
  then show ?case by (simp add: str_split_def)
next
  case (2 w)
  then have w: "w \<noteq> []" "\<forall>c\<in>set w. \<not> isspace c" by (simp_all add: is_word_def)
  from split_run_word[OF w(2), of "[]" "[]"] w(1) show ?case
    by (simp add: str_split_def)
next
  case (3 w v vs)
  then have w: "w \<noteq> []" "\<forall>c\<in>set w. \<not> isspace c" by (simp_all add: is_word_def)
  from 3 have ih: "split_run [] (str_join [space] (v # vs)) = v # vs"
    by (simp add: str_split_def)
  have "split_run [] (w @ space # str_join [space] (v # vs)) =
        split_run w (space # str_join [space] (v # vs))"
    using split_run_word[OF w(2), of "[]"] by simp
  also have "\<dots> = w # split_run [] (str_join [space] (v # vs))"
    using w(1) isspace_space by simp
  finally show ?case using ih by (simp add: str_split_def)
qed

lemma normalize_idem: "normalize (normalize s) = normalize s"
  using str_split_join[of "str_split s"] str_split_words
  by (simp add: normalize_def)

lemma split_run_plain:
  "\<forall>c\<in>set s. \<not> isspace c \<Longrightarrow> split_run w s = (if w @ s = [] then [] else [w @ s])"
  using split_run_word[of s w "[]"] by simp

lemma normalize_plain: "\<forall>c\<in>set s. \<not> isspace c \<Longrightarrow> normalize s = s"
  by (simp add: normalize_def str_split_def split_run_plain)

lemma join_chars:
  "c \<in> set (str_join [space] ws) \<Longrightarrow> c = space \<or> (\<exists>w\<in>set ws. c \<in> set w)"
  by (induction ws rule: induct_list012) auto

lemma join_ends:
  "\<forall>w\<in>set ws. is_word w \<Longrightarrow> ws \<noteq> [] \<Longrightarrow>
     str_join [space] ws \<noteq> [] \<and> \<not> isspace (hd (str_join [space] ws)) \<and>
     \<not> isspace (last (str_join [space] ws))"
proof (induction ws rule: induct_list012)
  case 1
  then show ?case by simp
next
  case (2 w)
  then show ?case by (simp add: is_word_def)
next
  case (3 w v vs)
  then have w: "w \<noteq> []" "\<forall>c\<in>set w. \<not> isspace c" by (simp_all add: is_word_def)
  from 3 have ih: "str_join [space] (v # vs) \<noteq> []" "\<not> isspace (last (str_join [space] (v # vs)))"
    by simp_all
  from w have "\<not> isspace (hd w)" by simp
  with w(1) ih show ?case by simp
qed

lemma double_space_append:
  assumes "sublist [space, space] (ys @ zs)"
  shows "sublist [space, space] ys \<or> sublist [space, space] zs \<or>
         (ys \<noteq> [] \<and> zs \<noteq> [] \<and> last ys = space \<and> hd zs = space)"
proof -
  from assms sublist_append[of "[space, space]" ys zs]
  consider "sublist [space, space] ys" | "sublist [space, space] zs"
    | xs1 xs2 where "[space, space] = xs1 @ xs2" "suffix xs1 ys" "prefix xs2 zs"
    by blast
  then show ?thesis
  proof cases
    case 1
    then show ?thesis by simp
  next
    case 2
    then show ?thesis by simp
  next
    case 3
    from 3(1) consider "xs1 = [] \<and> xs2 = [space, space]" | "xs1 = [space] \<and> xs2 = [space]"
      | "xs1 = [space, space] \<and> xs2 = []"
    proof (cases xs1)
      case Nil
      with 3(1) that(1) show ?thesis by simp
    next
      case (Cons a as)
      note outer = Cons
      show ?thesis
      proof (cases as)
        case Nil
        with outer 3(1) that(2) show ?thesis by simp
      next
        case (Cons b bs)
        with outer 3(1) that(3) show ?thesis by simp
      qed
    qed
    then show ?thesis
    proof cases
      case 1
      with 3(3) show ?thesis by auto
    next
      case 2
      with 3(2,3) show ?thesis by (auto simp: suffix_def prefix_def)
    next
      case 3
      with \<open>suffix xs1 ys\<close> show ?thesis by auto
    qed
  qed
qed

lemma double_space_mem: "sublist [space, space] xs \<Longrightarrow> space \<in> set xs"
  using set_mono_sublist[of "[space, space]" xs] by simp

lemma join_single_spaces:
  "\<forall>w\<in>set ws. is_word w \<Longrightarrow> \<not> sublist [space, space] (str_join [space] ws)"
proof (induction ws rule: induct_list012)
  case 1
  then show ?case by simp
next
  case (2 w)
  then have "space \<notin> set w" using isspace_space by (auto simp: is_word_def)
  then show ?case using double_space_mem[of w] by auto
next
  case (3 w v vs)
  let ?r = "str_join [space] (v # vs)"
  from "3.prems" have w: "w \<noteq> []" "\<forall>c\<in>set w. \<not> isspace c" and vs: "\<forall>x\<in>set (v # vs). is_word x"
    by (simp_all add: is_word_def)
  from w isspace_space have nw: "space \<notin> set w" by auto
  with w(1) have lw: "last w \<noteq> space" by (metis last_in_set)
  from "3.IH"(2)[OF vs] have ih: "\<not> sublist [space, space] ?r" .
  from join_ends[OF vs] isspace_space have hr: "?r \<noteq> []" "hd ?r \<noteq> space" by auto
  have "\<not> sublist [space, space] ([space] @ ?r)"
  proof
    assume "sublist [space, space] ([space] @ ?r)"
    from double_space_append[OF this] ih hr show False by (simp add: sublist_Cons_right)
  qed
  then have "\<not> sublist [space, space] (w @ [space] @ ?r)"
    using double_space_append[of w "[space] @ ?r"] nw lw double_space_mem[of w] by auto
  then show ?case by simp
qed

lemma normalize_space_only: "c \<in> set (normalize s) \<Longrightarrow> isspace c \<Longrightarrow> c = space"
  using join_chars[of c "str_split s"] str_split_words[of _ s]
  by (auto simp: normalize_def is_word_def)

lemma normalize_single_spaces: "\<not> sublist [space, space] (normalize s)"
  using join_single_spaces[of "str_split s"] str_split_words[of _ s]
  by (simp add: normalize_def)

lemma normalize_ends:
  assumes "normalize s \<noteq> []"
  shows "\<not> isspace (hd (normalize s)) \<and> \<not> isspace (last (normalize s))"
proof -
  from assms have "str_split s \<noteq> []"
    by (auto simp: normalize_def)
  with join_ends[of "str_split s"] str_split_words[of _ s] show ?thesis
    by (simp add: normalize_def)
qed

lemma dots: "str ''...'' = [dot, dot, dot]"
  by (simp add: str_def dot_def)

lemma length_summarize: "length (summarize s) \<le> 103"
  by (simp add: summarize_def Let_def str_def)

lemma summarize_short: "length (normalize s) \<le> 100 \<Longrightarrow> summarize s = normalize s"
  by (simp add: summarize_def Let_def)

lemma summarize_long:
  "100 < length (normalize s) \<Longrightarrow> summarize s = take 100 (normalize s) @ str ''...''"
  by (simp add: summarize_def Let_def)

lemma summarize_tidy:
  "newline \<notin> set (summarize s) \<and> \<not> sublist [space, space] (summarize s) \<and>
   (summarize s \<noteq> [] \<longrightarrow> \<not> isspace (hd (summarize s)) \<and> \<not> isspace (last (summarize s)))"
proof (cases "length (normalize s) > 100")
  case False
  then have eq: "summarize s = normalize s" by (simp add: summarize_def Let_def)
  have "newline \<notin> set (normalize s)"
    using normalize_space_only[of newline s] isspace_newline
    by (auto simp: newline_def space_def)
  with eq normalize_single_spaces[of s] normalize_ends[of s] show ?thesis by simp
next
  case True
  let ?n = "normalize s"
  from True have eq: "summarize s = take 100 ?n @ [dot, dot, dot]"
    by (simp add: summarize_def Let_def dots)
  from True have ne: "take 100 ?n \<noteq> []" "?n \<noteq> []" by auto
  have nl: "newline \<notin> set ?n"
    using normalize_space_only[of newline s] isspace_newline
    by (auto simp: newline_def space_def)
  have a: "newline \<notin> set (take 100 ?n @ [dot, dot, dot])"
    using nl in_set_takeD[of newline 100 ?n] by (auto simp: newline_def dot_def)
  have "\<not> sublist [space, space] (take 100 ?n)"
    using normalize_single_spaces[of s] sublist_take[of 100 ?n] sublist_order.order.trans by blast
  moreover have "\<not> sublist [space, space] [dot, dot, dot]"
    using double_space_mem[of "[dot, dot, dot]"] by (auto simp: space_def dot_def)
  ultimately have b: "\<not> sublist [space, space] (take 100 ?n @ [dot, dot, dot])"
    using double_space_append[of "take 100 ?n" "[dot, dot, dot]"]
    by (auto simp: space_def dot_def)
  have "hd (take 100 ?n @ [dot, dot, dot]) = hd ?n"
    using ne by (simp add: hd_append)
  with normalize_ends[OF ne(2)] have c: "\<not> isspace (hd (take 100 ?n @ [dot, dot, dot]))"
    by simp
  have d: "\<not> isspace (last (take 100 ?n @ [dot, dot, dot]))"
    using not_isspace_dot by simp
  from a b c d eq show ?thesis by simp
qed


section \<open>Evaluation on a given text\<close>

lemmas scan_eval = scan_content_def usage_of_match_def str_def finditer_def finditer_from.simps
  match_at_def match_here_def toast_def variants_def dot_def lparen_def rparen_def isspace_def
  raw_args_def summarize_def normalize_def str_split_def space_def newline_def str_count_def
  group2_def isquote_def subscript_def usages_def depth_def depth_step_def


section \<open>The claims\<close>

text \<open>
  C1. For every text and every candidate, the raw argument text is the text from the
  argument-start offset, which is just after the opening parenthesis, up to and without the
  first closing parenthesis that is met while the depth counter is 0.
\<close>

theorem raw_args_up_to_first_closer_at_depth_0:
  assumes "m \<in> set (finditer content)"
    and "drop (start2 m) content = pre @ rparen # post"
    and "depth pre = 0"
    and "\<forall>p\<in>set (prefixes pre). \<not> (prefix (p @ [rparen]) pre \<and> depth p = 0)"
  shows "0 < start2 m \<and> content ! (start2 m - 1) = lparen \<and> raw_args content m = pre"
proof -
  from finditer_shape[OF assms(1)] have "0 < start2 m" "content ! (start2 m - 1) = lparen"
    by auto
  moreover have "balance_loop 0 [] (pre @ rparen # post) = [] @ pre"
    using assms(3,4) by (intro balance_loop_closer) (simp_all add: depth_def)
  ultimately show ?thesis using assms(2) by (simp add: raw_args_def)
qed

theorem raw_args_up_to_first_closer_at_depth_0_witness:
  "\<lparr>m_start = 0, m_end = 10, group1 = None, start2 = 6\<rparr> \<in> set (finditer (str ''toast(f(x), (y)) + g(z)'')) \<and>
   drop 6 (str ''toast(f(x), (y)) + g(z)'') = str ''f(x), (y)'' @ rparen # str '' + g(z)'' \<and>
   depth (str ''f(x), (y)'') = 0 \<and>
   str ''toast(f(x), (y)) + g(z)'' ! 5 = lparen \<and>
   raw_args (str ''toast(f(x), (y)) + g(z)'') \<lparr>m_start = 0, m_end = 10, group1 = None, start2 = 6\<rparr> = str ''f(x), (y)''"
proof -
  let ?c = "str ''toast(f(x), (y)) + g(z)''"
  let ?m = "\<lparr>m_start = 0, m_end = 10, group1 = None, start2 = 6\<rparr>"
  have 1: "?m \<in> set (finditer ?c)" by (simp add: scan_eval)
  have 2: "drop (start2 ?m) ?c = str ''f(x), (y)'' @ rparen # str '' + g(z)''"
    by (simp add: scan_eval)
  have 3: "depth (str ''f(x), (y)'') = 0" by (simp add: scan_eval)
  have 4: "\<forall>p\<in>set (prefixes (str ''f(x), (y)'')). \<not> (prefix (p @ [rparen]) (str ''f(x), (y)'') \<and> depth p = 0)"
    by (simp add: scan_eval)
  from raw_args_up_to_first_closer_at_depth_0[OF 1 2 3 4] 1 2 3 show ?thesis by simp
qed

text \<open>
  C2, as the code has it. For the text \<^verbatim>\<open>toast(foo(bar(1,2)), "x)y")\<close> the extraction
  does not stop at a closing parenthesis inside \<^verbatim>\<open>foo(bar(1,2))\<close>; it stops at the
  closing parenthesis inside the string literal, which is met at depth 0 because quotes
  are not tracked, and returns \<^verbatim>\<open>foo(bar(1,2)), "x\<close>.
\<close>

theorem nested_call_kept_string_literal_cut:
  \<open>map (raw_args (str ''toast(foo(bar(1,2)), "x)y")'')) (finditer (str ''toast(foo(bar(1,2)), "x)y")''))
     = [str ''foo(bar(1,2)), "x'']
   \<and> map u_args (usages filepath (str ''toast(foo(bar(1,2)), "x)y")'')) = [str ''foo(bar(1,2)), "x'']\<close>
  by (simp add: scan_eval)

text \<open>C2 as stated fails: the extracted text is not the whole inner content.\<close>

theorem nested_call_whole_content_counterexample:
  \<open>map (raw_args (str ''toast(foo(bar(1,2)), "x)y")'')) (finditer (str ''toast(foo(bar(1,2)), "x)y")''))
     \<noteq> [str ''foo(bar(1,2)), "x)y"'']\<close>
  by (simp add: scan_eval)

text \<open>
  C3, as the code has it. A candidate needs a closing parenthesis somewhere after its
  opening one, since the pattern ends with one. For a candidate whose depth counter is
  never negative up to the end of the text, the record is emitted all the same, with
  the summary of the whole text from the argument-start offset to the end; the loop
  raises nothing. Where no closing parenthesis follows, no candidate starts.
\<close>

theorem unbalanced_candidate_keeps_rest_of_text:
  "(i < length (finditer content) \<and>
    (\<forall>p\<in>set (prefixes (drop (start2 (finditer content ! i)) content)). 0 \<le> depth p) \<longrightarrow>
      i < length (usages filepath content) \<and>
      raw_args content (finditer content ! i) = drop (start2 (finditer content ! i)) content \<and>
      u_args (usages filepath content ! i) =
        summarize (drop (start2 (finditer content ! i)) content) \<and>
      snd (scan_content filepath content []) = None) \<and>
   (rparen \<notin> set (drop p content) \<longrightarrow> (\<forall>m\<in>set (finditer content). m_start m \<noteq> p))"
proof (intro conjI impI)
  assume a: "i < length (finditer content) \<and>
    (\<forall>p\<in>set (prefixes (drop (start2 (finditer content ! i)) content)). 0 \<le> depth p)"
  let ?rest = "drop (start2 (finditer content ! i)) content"
  from a have "\<forall>p\<in>set (prefixes ?rest). 0 \<le> foldl depth_step 0 p"
    by (simp add: depth_def)
  from balance_loop_whole[OF this, of "[]"] have raw: "raw_args content (finditer content ! i) = ?rest"
    by (simp add: raw_args_def)
  from a show "i < length (usages filepath content)" by (simp add: length_usages)
  from raw show "raw_args content (finditer content ! i) = ?rest" .
  from a raw show "u_args (usages filepath content ! i) = summarize ?rest"
    by (simp add: usages_nth usage_rec_def)
  show "snd (scan_content filepath content []) = None" by (simp add: scan_content_eq)
next
  assume n: "rparen \<notin> set (drop p content)"
  show "\<forall>m\<in>set (finditer content). m_start m \<noteq> p"
  proof
    fix m
    assume "m \<in> set (finditer content)"
    from finditer_needs_closer[OF this] n show "m_start m \<noteq> p" by auto
  qed
qed

theorem unbalanced_candidate_keeps_rest_of_text_witness:
  \<open>0 < length (finditer (str ''x = toast(f(1) +  g(2'')) \<and>
   start2 (finditer (str ''x = toast(f(1) +  g(2'') ! 0) = 10 \<and>
   u_args (usages (str ''a.ts'') (str ''x = toast(f(1) +  g(2'') ! 0) = str ''f(1) + g(2'' \<and>
   rparen \<notin> set (drop 0 (str ''toast("Hello"'')) \<and>
   \<not> (\<exists>m\<in>set (finditer (str ''toast("Hello"'')). m_start m = 0)\<close>
proof -
  let ?c = \<open>str ''x = toast(f(1) +  g(2''\<close>
  let ?d = \<open>str ''toast("Hello"''\<close>
  have 1: "0 < length (finditer ?c)" by (simp add: scan_eval)
  have 2: "start2 (finditer ?c ! 0) = 10" by (simp add: scan_eval)
  have 3: "\<forall>p\<in>set (prefixes (drop (start2 (finditer ?c ! 0)) ?c)). 0 \<le> depth p"
    unfolding 2 by (simp add: scan_eval)
  have 4: "summarize (drop 10 ?c) = str ''f(1) + g(2''" by (simp add: scan_eval)
  have 5: "rparen \<notin> set (drop 0 ?d)" by (simp add: scan_eval)
  from unbalanced_candidate_keeps_rest_of_text[of 0 ?c "str ''a.ts''" 0] 1 3
  have "u_args (usages (str ''a.ts'') ?c ! 0) = summarize (drop (start2 (finditer ?c ! 0)) ?c)"
    by blast
  then have a: "u_args (usages (str ''a.ts'') ?c ! 0) = str ''f(1) + g(2''"
    unfolding 2 4 .
  from unbalanced_candidate_keeps_rest_of_text[of 0 ?d "str ''a.ts''" 0] 5
  have b: "\<not> (\<exists>m\<in>set (finditer ?d). m_start m = 0)" by blast
  from 1 2 a 5 b show ?thesis by simp
qed

text \<open>
  C3 as stated fails: in \<^verbatim>\<open>toast("Hello"\<close> the identifier is followed by an opening
  parenthesis and the text ends with the counter at 0, and no record is emitted.
\<close>

theorem unterminated_call_counterexample:
  \<open>usages (str ''a.ts'') (str ''toast("Hello"'') = []\<close>
  by (simp add: scan_eval)

text \<open>
  C4. The line of the record of each candidate is 1 plus the number of newline characters
  of the original text before the candidate's start offset, and so at least 1. There is
  one record for each candidate, in the same order.
\<close>

theorem line_counts_newlines_before_start:
  assumes "i < length (finditer content)"
  shows "length (usages filepath content) = length (finditer content) \<and>
         prefix toast (drop (m_start (finditer content ! i)) content) \<and>
         u_line (usages filepath content ! i) =
           1 + length (filter (\<lambda>c. c = newline) (take (m_start (finditer content ! i)) content)) \<and>
         1 \<le> u_line (usages filepath content ! i)"
proof -
  from assms have "finditer content ! i \<in> set (finditer content)" by simp
  from finditer_shape[OF this] have "prefix toast (drop (m_start (finditer content ! i)) content)"
    by blast
  then show ?thesis
    using assms by (simp add: usages_nth length_usages usage_rec_def str_count_filter)
qed

theorem line_counts_newlines_before_start_witness:
  \<open>1 < length (finditer (str ''a\<newline>toast(1)\<newline>\<newline> toast.error("b")'')) \<and>
   m_start (finditer (str ''a\<newline>toast(1)\<newline>\<newline> toast.error("b")'') ! 1) = 13 \<and>
   u_line (usages (str ''a.ts'') (str ''a\<newline>toast(1)\<newline>\<newline> toast.error("b")'') ! 1) = 4\<close>
proof -
  let ?c = \<open>str ''a\<newline>toast(1)\<newline>\<newline> toast.error("b")''\<close>
  have 1: "1 < length (finditer ?c)" by (simp add: scan_eval)
  have 2: "m_start (finditer ?c ! 1) = 13" by (simp add: scan_eval)
  have 3: "1 + length (filter (\<lambda>c. c = newline) (take 13 ?c)) = 4" by (simp add: scan_eval)
  from line_counts_newlines_before_start[OF 1, of "str ''a.ts''"] 1 2 3 show ?thesis by simp
qed

text \<open>
  C5, as the code has it. A call \<^verbatim>\<open>toast.success(...)\<close> that does not begin inside the
  span of another candidate yields a record of variant \<^verbatim>\<open>success\<close>, and such a bare
  call \<^verbatim>\<open>toast(...)\<close> one of variant \<^verbatim>\<open>default\<close>. Where \<^verbatim>\<open>toast.\<close> is followed by a member
  name (without whitespace and parentheses) that is not a recognized one, no candidate
  starts at that \<^verbatim>\<open>toast\<close>. The variant of every record is one of the eight names.
\<close>

theorem variant_of_each_call:
  "((\<forall>c\<in>set ws. isspace c) \<and> rparen \<in> set rest \<and>
    content = pre @ toast @ dot # str ''success'' @ ws @ lparen # rest \<and>
    (\<forall>m\<in>set (finditer content). \<not> (m_start m < length pre \<and> length pre < m_end m)) \<longrightarrow>
      (\<exists>i<length (finditer content). m_start (finditer content ! i) = length pre \<and>
         u_type (usages filepath content ! i) = str ''success'')) \<and>
   ((\<forall>c\<in>set ws. isspace c) \<and> rparen \<in> set rest \<and>
    content = pre @ toast @ ws @ lparen # rest \<and>
    (\<forall>m\<in>set (finditer content). \<not> (m_start m < length pre \<and> length pre < m_end m)) \<longrightarrow>
      (\<exists>i<length (finditer content). m_start (finditer content ! i) = length pre \<and>
         u_type (usages filepath content ! i) = str ''default'')) \<and>
   ((\<forall>c\<in>set mem. \<not> isspace c \<and> c \<noteq> lparen) \<and> mem \<notin> set variants \<and>
    (\<forall>c\<in>set ws. isspace c) \<and>
    content = pre @ toast @ dot # mem @ ws @ lparen # rest \<longrightarrow>
      (\<forall>m\<in>set (finditer content). m_start m \<noteq> length pre)) \<and>
   (u \<in> set (usages filepath content) \<longrightarrow>
      u_type u \<in> {str ''default'', str ''success'', str ''error'', str ''info'', str ''warning'',
                  str ''loading'', str ''custom'', str ''message''})"
proof (intro conjI impI)
  assume a: "(\<forall>c\<in>set ws. isspace c) \<and> rparen \<in> set rest \<and>
    content = pre @ toast @ dot # str ''success'' @ ws @ lparen # rest \<and>
    (\<forall>m\<in>set (finditer content). \<not> (m_start m < length pre \<and> length pre < m_end m))"
  then obtain a' post where rest: "rest = a' @ rparen # post" "rparen \<notin> set a'"
    by (meson split_list_first)
  let ?s = "toast @ dot # str ''success'' @ ws @ lparen # a' @ rparen # post"
  from a rest have c: "content = pre @ ?s" by simp
  from a rest(2) have "match_here ?s \<noteq> None"
    using match_here_variant[OF success_variant, of ws a' post] by simp
  then obtain g s2 e where mh: "match_here ?s = Some (g, s2, e)" by auto
  with a rest(2) have g: "g = Some (str ''success'')"
    using match_here_variant[OF success_variant, of ws a' post] by simp
  from a c have "\<forall>m\<in>set (finditer (pre @ ?s)). \<not> (m_start m < length pre \<and> length pre < m_end m)"
    by simp
  from candidate_gives_record[OF mh this] c g
  obtain i where i: "i < length (finditer content)" "m_start (finditer content ! i) = length pre"
    "group1 (finditer content ! i) = Some (str ''success'')"
    by auto
  from usage_type_of_match[OF i(1), of filepath] i(3)
  have "u_type (usages filepath content ! i) = str ''success''"
    by (simp add: str_def)
  with i(1,2) show "\<exists>i<length (finditer content). m_start (finditer content ! i) = length pre \<and>
         u_type (usages filepath content ! i) = str ''success''"
    by blast
next
  assume a: "(\<forall>c\<in>set ws. isspace c) \<and> rparen \<in> set rest \<and>
    content = pre @ toast @ ws @ lparen # rest \<and>
    (\<forall>m\<in>set (finditer content). \<not> (m_start m < length pre \<and> length pre < m_end m))"
  then obtain a' post where rest: "rest = a' @ rparen # post" "rparen \<notin> set a'"
    by (meson split_list_first)
  let ?s = "toast @ ws @ lparen # a' @ rparen # post"
  from a rest have c: "content = pre @ ?s" by simp
  from a rest(2) have "match_here ?s \<noteq> None"
    using match_here_bare[of ws a' post] by simp
  then obtain g s2 e where mh: "match_here ?s = Some (g, s2, e)" by auto
  with a rest(2) have g: "g = None"
    using match_here_bare[of ws a' post] by simp
  from a c have "\<forall>m\<in>set (finditer (pre @ ?s)). \<not> (m_start m < length pre \<and> length pre < m_end m)"
    by simp
  from candidate_gives_record[OF mh this] c g
  obtain i where i: "i < length (finditer content)" "m_start (finditer content ! i) = length pre"
    "group1 (finditer content ! i) = None"
    by auto
  from usage_type_of_match[OF i(1), of filepath] i(3)
  have "u_type (usages filepath content ! i) = str ''default''"
    by simp
  with i(1,2) show "\<exists>i<length (finditer content). m_start (finditer content ! i) = length pre \<and>
         u_type (usages filepath content ! i) = str ''default''"
    by blast
next
  assume a: "(\<forall>c\<in>set mem. \<not> isspace c \<and> c \<noteq> lparen) \<and> mem \<notin> set variants \<and>
    (\<forall>c\<in>set ws. isspace c) \<and> content = pre @ toast @ dot # mem @ ws @ lparen # rest"
  then have "match_here (toast @ dot # mem @ ws @ lparen # rest) = None"
    using match_here_unknown_member[of mem ws rest] by blast
  from match_at_append_None[OF this, of pre] a have none: "match_at content (length pre) = None"
    by simp
  show "\<forall>m\<in>set (finditer content). m_start m \<noteq> length pre"
  proof
    fix m
    assume "m \<in> set (finditer content)"
    from finditer_sound[OF this] none show "m_start m \<noteq> length pre" by auto
  qed
next
  assume "u \<in> set (usages filepath content)"
  from usages_mem[OF this] obtain m where m: "m \<in> set (finditer content)"
    and u: "u = usage_rec filepath content m"
    by blast
  from match_at_shape[OF finditer_sound[OF m]]
  have "group1 m = None \<or> (\<exists>v\<in>set variants. group1 m = Some v)" by blast
  then have "u_type u = str ''default'' \<or> u_type u \<in> set variants"
    using u variants_nonempty by (auto simp: usage_rec_def)
  then show "u_type u \<in> {str ''default'', str ''success'', str ''error'', str ''info'', str ''warning'',
                  str ''loading'', str ''custom'', str ''message''}"
    by (auto simp: variants_def)
qed

theorem variant_of_each_call_witness:
  \<open>(\<exists>i<length (finditer (str ''ok(); toast.success("Saved")'')).
      m_start (finditer (str ''ok(); toast.success("Saved")'') ! i) = 6 \<and>
      u_type (usages (str ''a.ts'') (str ''ok(); toast.success("Saved")'') ! i) = str ''success'') \<and>
   (\<exists>i<length (finditer (str ''ok(); toast ("Saved")'')).
      m_start (finditer (str ''ok(); toast ("Saved")'') ! i) = 6 \<and>
      u_type (usages (str ''a.ts'') (str ''ok(); toast ("Saved")'') ! i) = str ''default'') \<and>
   str ''unknownMember'' \<notin> set variants \<and>
   \<not> (\<exists>m\<in>set (finditer (str ''toast.unknownMember("x")'')). m_start m = 0) \<and>
   \<lparr>u_file = str ''a.ts'', u_line = 1, u_type = str ''error'', u_args = str ''"x"''\<rparr>
     \<in> set (usages (str ''a.ts'') (str ''toast.error("x")'')) \<and>
   str ''error'' \<in> {str ''default'', str ''success'', str ''error'', str ''info'', str ''warning'',
                   str ''loading'', str ''custom'', str ''message''}\<close>
proof -
  let ?f = "str ''a.ts''"
  let ?c1 = \<open>str ''ok(); toast.success("Saved")''\<close>
  let ?c2 = \<open>str ''ok(); toast ("Saved")''\<close>
  let ?c3 = \<open>str ''toast.unknownMember("x")''\<close>
  let ?c4 = \<open>str ''toast.error("x")''\<close>
  let ?u = \<open>\<lparr>u_file = str ''a.ts'', u_line = 1, u_type = str ''error'', u_args = str ''"x"''\<rparr>\<close>
  have a: \<open>(\<forall>c\<in>set ([]::ustr). isspace c) \<and> rparen \<in> set (str ''"Saved")'') \<and>
    ?c1 = str ''ok(); '' @ toast @ dot # str ''success'' @ [] @ lparen # str ''"Saved")'' \<and>
    (\<forall>m\<in>set (finditer ?c1). \<not> (m_start m < length (str ''ok(); '') \<and> length (str ''ok(); '') < m_end m))\<close>
    by (simp add: scan_eval)
  have b: \<open>(\<forall>c\<in>set [space]. isspace c) \<and> rparen \<in> set (str ''"Saved")'') \<and>
    ?c2 = str ''ok(); '' @ toast @ [space] @ lparen # str ''"Saved")'' \<and>
    (\<forall>m\<in>set (finditer ?c2). \<not> (m_start m < length (str ''ok(); '') \<and> length (str ''ok(); '') < m_end m))\<close>
    by (simp add: scan_eval)
  have c: \<open>(\<forall>c\<in>set (str ''unknownMember''). \<not> isspace c \<and> c \<noteq> lparen) \<and>
    str ''unknownMember'' \<notin> set variants \<and> (\<forall>c\<in>set ([]::ustr). isspace c) \<and>
    ?c3 = [] @ toast @ dot # str ''unknownMember'' @ [] @ lparen # str ''"x")''\<close>
    by (simp add: scan_eval)
  have d: "?u \<in> set (usages ?f ?c4)" by (simp add: scan_eval)
  have len: "length (str ''ok(); '') = 6" by (simp add: str_def)
  from variant_of_each_call[where ws = "[]" and rest = \<open>str ''"Saved")''\<close> and content = ?c1
      and pre = "str ''ok(); ''" and filepath = ?f] a
  have 1: "\<exists>i<length (finditer ?c1). m_start (finditer ?c1 ! i) = 6 \<and>
      u_type (usages ?f ?c1 ! i) = str ''success''"
    unfolding len by blast
  from variant_of_each_call[where ws = "[space]" and rest = \<open>str ''"Saved")''\<close> and content = ?c2
      and pre = "str ''ok(); ''" and filepath = ?f] b
  have 2: "\<exists>i<length (finditer ?c2). m_start (finditer ?c2 ! i) = 6 \<and>
      u_type (usages ?f ?c2 ! i) = str ''default''"
    unfolding len by blast
  from variant_of_each_call[where ws = "[]" and rest = \<open>str ''"x")''\<close> and content = ?c3
      and pre = "[]" and mem = "str ''unknownMember''"] c
  have "\<forall>m\<in>set (finditer ?c3). m_start m \<noteq> length ([]::ustr)"
    by blast
  then have 3: "\<not> (\<exists>m\<in>set (finditer ?c3). m_start m = 0)" by simp
  from variant_of_each_call[where u = ?u and filepath = ?f and content = ?c4] d
  have "u_type ?u \<in> {str ''default'', str ''success'', str ''error'', str ''info'', str ''warning'',
                   str ''loading'', str ''custom'', str ''message''}"
    by blast
  then have 4: "str ''error'' \<in> {str ''default'', str ''success'', str ''error'', str ''info'', str ''warning'',
                   str ''loading'', str ''custom'', str ''message''}"
    by simp
  from c have 5: "str ''unknownMember'' \<notin> set variants" by blast
  from 1 2 3 4 5 d show ?thesis by blast
qed

text \<open>
  C5 as stated fails. The text \<^verbatim>\<open>toast(toast.success("a"))\<close> holds a call
  \<^verbatim>\<open>toast.success(...)\<close>, inside the span of the outer candidate, and the only record
  has the variant \<^verbatim>\<open>default\<close>. The texts \<^verbatim>\<open>toast.unknownMember(toast("x"))\<close> and
  \<^verbatim>\<open>toast.mytoast("x")\<close> yield a record each, from the candidate that starts in the
  arguments and in the member name.
\<close>

theorem success_call_inside_span_counterexample:
  \<open>usages (str ''a.ts'') (str ''toast(toast.success("a"))'') =
     [\<lparr>u_file = str ''a.ts'', u_line = 1, u_type = str ''default'',
       u_args = str ''toast.success("a")''\<rparr>] \<and>
   usages (str ''a.ts'') (str ''toast.unknownMember(toast("x"))'') =
     [\<lparr>u_file = str ''a.ts'', u_line = 1, u_type = str ''default'', u_args = str ''"x"''\<rparr>] \<and>
   usages (str ''a.ts'') (str ''toast.mytoast("x")'') =
     [\<lparr>u_file = str ''a.ts'', u_line = 1, u_type = str ''default'', u_args = str ''"x"''\<rparr>]\<close>
  by (simp add: scan_eval)

text \<open>
  C6. The argument summary of every record has at most 103 characters. When the
  normalized argument text has at most 100 characters, the summary is that text, and
  summarizing the summary again gives it back. A raw argument of 150 characters without
  whitespace gives a summary of 103 characters that ends in the marker.
\<close>

theorem args_summary_length_and_truncation:
  assumes "i < length (finditer content)"
  shows "u_args (usages filepath content ! i) = summarize (raw_args content (finditer content ! i)) \<and>
         length (u_args (usages filepath content ! i)) \<le> 103 \<and>
         (length (normalize (raw_args content (finditer content ! i))) \<le> 100 \<longrightarrow>
            u_args (usages filepath content ! i) = normalize (raw_args content (finditer content ! i)) \<and>
            normalize (u_args (usages filepath content ! i)) = u_args (usages filepath content ! i) \<and>
            summarize (u_args (usages filepath content ! i)) = u_args (usages filepath content ! i)) \<and>
         (length (raw_args content (finditer content ! i)) = 150 \<and>
          (\<forall>c\<in>set (raw_args content (finditer content ! i)). \<not> isspace c) \<longrightarrow>
            length (u_args (usages filepath content ! i)) = 103 \<and>
            take 100 (u_args (usages filepath content ! i)) = take 100 (raw_args content (finditer content ! i)) \<and>
            drop 100 (u_args (usages filepath content ! i)) = str ''...'')"
proof -
  let ?raw = "raw_args content (finditer content ! i)"
  let ?a = "u_args (usages filepath content ! i)"
  from assms have a: "?a = summarize ?raw"
    by (simp add: usages_nth usage_rec_def)
  have b: "length ?a \<le> 103" using a length_summarize by simp
  have c: "?a = normalize ?raw \<and> normalize ?a = ?a \<and> summarize ?a = ?a"
    if "length (normalize ?raw) \<le> 100"
  proof -
    from that a have 1: "?a = normalize ?raw" by (simp add: summarize_short)
    then have 2: "normalize ?a = ?a" by (simp add: normalize_idem)
    with 1 that have "summarize ?a = ?a" by (simp add: summarize_short)
    with 1 2 show ?thesis by simp
  qed
  have d: "length ?a = 103 \<and> take 100 ?a = take 100 ?raw \<and> drop 100 ?a = str ''...''"
    if "length ?raw = 150 \<and> (\<forall>c\<in>set ?raw. \<not> isspace c)"
  proof -
    from that have "normalize ?raw = ?raw" by (simp add: normalize_plain)
    with that a have "?a = take 100 ?raw @ str ''...''" by (simp add: summarize_long)
    with that show ?thesis by (simp add: str_def)
  qed
  from a b c d show ?thesis by blast
qed

theorem args_summary_length_and_truncation_witness:
  \<open>0 < length (finditer (str ''toast("Saved",  1)'')) \<and>
   length (normalize (raw_args (str ''toast("Saved",  1)'') (finditer (str ''toast("Saved",  1)'') ! 0))) \<le> 100 \<and>
   u_args (usages (str ''a.ts'') (str ''toast("Saved",  1)'') ! 0) = str ''"Saved", 1'' \<and>
   summarize (str ''"Saved", 1'') = str ''"Saved", 1'' \<and>
   0 < length (finditer (str ''toast(aaaaaaaaaaaaaaaaaaaaaaaaaaaaaaaaaaaaaaaaaaaaaaaaaaaaaaaaaaaaaaaaaaaaaaaaaaaaaaaaaaaaaaaaaaaaaaaaaaaaaaaaaaaaaaaaaaaaaaaaaaaaaaaaaaaaaaaaaaaaaaaaaaaaaa)'')) \<and>
   length (raw_args (str ''toast(aaaaaaaaaaaaaaaaaaaaaaaaaaaaaaaaaaaaaaaaaaaaaaaaaaaaaaaaaaaaaaaaaaaaaaaaaaaaaaaaaaaaaaaaaaaaaaaaaaaaaaaaaaaaaaaaaaaaaaaaaaaaaaaaaaaaaaaaaaaaaaaaaaaaaa)'') (finditer (str ''toast(aaaaaaaaaaaaaaaaaaaaaaaaaaaaaaaaaaaaaaaaaaaaaaaaaaaaaaaaaaaaaaaaaaaaaaaaaaaaaaaaaaaaaaaaaaaaaaaaaaaaaaaaaaaaaaaaaaaaaaaaaaaaaaaaaaaaaaaaaaaaaaaaaaaaaa)'') ! 0)) = 150 \<and>
   length (u_args (usages (str ''a.ts'') (str ''toast(aaaaaaaaaaaaaaaaaaaaaaaaaaaaaaaaaaaaaaaaaaaaaaaaaaaaaaaaaaaaaaaaaaaaaaaaaaaaaaaaaaaaaaaaaaaaaaaaaaaaaaaaaaaaaaaaaaaaaaaaaaaaaaaaaaaaaaaaaaaaaaaaaaaaaa)'') ! 0)) = 103 \<and>
   u_args (usages (str ''a.ts'') (str ''toast(aaaaaaaaaaaaaaaaaaaaaaaaaaaaaaaaaaaaaaaaaaaaaaaaaaaaaaaaaaaaaaaaaaaaaaaaaaaaaaaaaaaaaaaaaaaaaaaaaaaaaaaaaaaaaaaaaaaaaaaaaaaaaaaaaaaaaaaaaaaaaaaaaaaaaa)'') ! 0) = str ''aaaaaaaaaaaaaaaaaaaaaaaaaaaaaaaaaaaaaaaaaaaaaaaaaaaaaaaaaaaaaaaaaaaaaaaaaaaaaaaaaaaaaaaaaaaaaaaaaaaa...''\<close>
proof -
  let ?c = \<open>str ''toast("Saved",  1)''\<close>
  let ?d = \<open>str ''toast(aaaaaaaaaaaaaaaaaaaaaaaaaaaaaaaaaaaaaaaaaaaaaaaaaaaaaaaaaaaaaaaaaaaaaaaaaaaaaaaaaaaaaaaaaaaaaaaaaaaaaaaaaaaaaaaaaaaaaaaaaaaaaaaaaaaaaaaaaaaaaaaaaaaaaa)''\<close>
  have 1: "0 < length (finditer ?c)" by (simp add: scan_eval)
  have 2: "length (normalize (raw_args ?c (finditer ?c ! 0))) \<le> 100" by (simp add: scan_eval)
  have 3: \<open>normalize (raw_args ?c (finditer ?c ! 0)) = str ''"Saved", 1''\<close> by (simp add: scan_eval)
  have 4: "0 < length (finditer ?d)" by (simp add: scan_eval)
  have 5: \<open>raw_args ?d (finditer ?d ! 0) = str ''aaaaaaaaaaaaaaaaaaaaaaaaaaaaaaaaaaaaaaaaaaaaaaaaaaaaaaaaaaaaaaaaaaaaaaaaaaaaaaaaaaaaaaaaaaaaaaaaaaaaaaaaaaaaaaaaaaaaaaaaaaaaaaaaaaaaaaaaaaaaaaaaaaaaaa''\<close>
    by (simp add: scan_eval)
  have 6: \<open>length (raw_args ?d (finditer ?d ! 0)) = 150 \<and> (\<forall>c\<in>set (raw_args ?d (finditer ?d ! 0)). \<not> isspace c)\<close>
    unfolding 5 by (simp add: str_def isspace_def)
  note t1 = args_summary_length_and_truncation[OF 1, of "str ''a.ts''"]
  note t2 = args_summary_length_and_truncation[OF 4, of "str ''a.ts''"]
  from t1 2 have "u_args (usages (str ''a.ts'') ?c ! 0) = normalize (raw_args ?c (finditer ?c ! 0))"
    and "summarize (u_args (usages (str ''a.ts'') ?c ! 0)) = u_args (usages (str ''a.ts'') ?c ! 0)"
    by blast+
  then have a: \<open>u_args (usages (str ''a.ts'') ?c ! 0) = str ''"Saved", 1''\<close>
    and b: \<open>summarize (str ''"Saved", 1'') = str ''"Saved", 1''\<close>
    unfolding 3 by simp_all
  from t2 6 have c: "length (u_args (usages (str ''a.ts'') ?d ! 0)) = 103"
    and d: "take 100 (u_args (usages (str ''a.ts'') ?d ! 0)) = take 100 (raw_args ?d (finditer ?d ! 0))"
    and e: "drop 100 (u_args (usages (str ''a.ts'') ?d ! 0)) = str ''...''"
    by blast+
  have \<open>u_args (usages (str ''a.ts'') ?d ! 0) = take 100 (raw_args ?d (finditer ?d ! 0)) @ str ''...''\<close>
    using d e by (metis append_take_drop_id)
  then have f: \<open>u_args (usages (str ''a.ts'') ?d ! 0) = str ''aaaaaaaaaaaaaaaaaaaaaaaaaaaaaaaaaaaaaaaaaaaaaaaaaaaaaaaaaaaaaaaaaaaaaaaaaaaaaaaaaaaaaaaaaaaaaaaaaaaa...''\<close>
    unfolding 5 by (simp add: str_def)
  from 1 2 a b 4 6 c f show ?thesis by simp
qed

text \<open>
  C7. The argument summary of every record has no newline character, no two space
  characters in a row, and no whitespace at its start or at its end.
\<close>

theorem args_summary_has_normal_whitespace:
  assumes "u \<in> set (usages filepath content)"
  shows "newline \<notin> set (u_args u) \<and> \<not> sublist [space, space] (u_args u) \<and>
         (u_args u \<noteq> [] \<longrightarrow> \<not> isspace (hd (u_args u)) \<and> \<not> isspace (last (u_args u)))"
proof -
  from usages_mem[OF assms] obtain m where "u = usage_rec filepath content m" by blast
  then have "u_args u = summarize (raw_args content m)" by (simp add: usage_rec_def)
  with summarize_tidy[of "raw_args content m"] show ?thesis by simp
qed

theorem args_summary_has_normal_whitespace_witness:
  \<open>\<lparr>u_file = str ''a.ts'', u_line = 1, u_type = str ''error'', u_args = str ''"Failed: " + reason, { id: 1 }''\<rparr>
      \<in> set (usages (str ''a.ts'') (str ''toast.error(  "Failed: "\<newline>   + reason,\<newline>  { id: 1 } )'')) \<and>
   newline \<notin> set (str ''"Failed: " + reason, { id: 1 }'') \<and>
   \<not> sublist [space, space] (str ''"Failed: " + reason, { id: 1 }'') \<and>
   \<not> isspace (hd (str ''"Failed: " + reason, { id: 1 }'')) \<and>
   \<not> isspace (last (str ''"Failed: " + reason, { id: 1 }''))\<close>
proof -
  let ?u = \<open>\<lparr>u_file = str ''a.ts'', u_line = 1, u_type = str ''error'', u_args = str ''"Failed: " + reason, { id: 1 }''\<rparr>\<close>
  have 1: \<open>?u \<in> set (usages (str ''a.ts'') (str ''toast.error(  "Failed: "\<newline>   + reason,\<newline>  { id: 1 } )''))\<close>
    by (simp add: scan_eval)
  have 2: "u_args ?u \<noteq> []" by (simp add: str_def)
  from args_summary_has_normal_whitespace[OF 1] 1 2 show ?thesis by simp
qed

text \<open>
  C8. On every text, the loop over the matches ends without an exception: the records
  are appended to the list and none is lost. The search for the matches and all loops
  of the body are total functions.
\<close>

theorem scan_content_never_raises:
  "snd (scan_content filepath content usage_list) = None \<and>
   (\<exists>us. fst (scan_content filepath content usage_list) = usage_list @ us \<and>
         length us = length (finditer content))"
  by (simp add: scan_content_eq)

text \<open>
  C9. The pattern has no word boundary before the identifier: \<^verbatim>\<open>showtoast("x")\<close> yields
  a record, of variant \<^verbatim>\<open>default\<close>.
\<close>

theorem identifier_matched_inside_longer_name:
  \<open>usages (str ''a.ts'') (str ''showtoast("x")'') =
     [\<lparr>u_file = str ''a.ts'', u_line = 1, u_type = str ''default'', u_args = str ''"x"''\<rparr>]\<close>
  by (simp add: scan_eval)

text \<open>
  C10. The span of a candidate goes from its start through the first closing
  parenthesis after its opening parenthesis, and no candidate starts inside the span of
  another one; there is one record for each candidate. For \<^verbatim>\<open>toast(toast("a"))\<close> there
  is one record, with the arguments \<^verbatim>\<open>toast("a")\<close>.
\<close>

theorem candidates_do_not_overlap:
  \<open>(m \<in> set (finditer content) \<longrightarrow>
      m_start m < start2 m \<and> content ! (start2 m - 1) = lparen \<and>
      (\<exists>a post. drop (start2 m) content = a @ rparen # post \<and> rparen \<notin> set a \<and>
         m_end m = start2 m + length a + 1) \<and>
      (\<forall>p. m_start m < p \<and> p < m_end m \<longrightarrow> (\<forall>m'\<in>set (finditer content). m_start m' \<noteq> p))) \<and>
   length (usages filepath content) = length (finditer content) \<and>
   usages (str ''a.ts'') (str ''toast(toast("a"))'') =
     [\<lparr>u_file = str ''a.ts'', u_line = 1, u_type = str ''default'', u_args = str ''toast("a")''\<rparr>]\<close>
proof (intro conjI impI allI)
  assume m: "m \<in> set (finditer content)"
  from finditer_shape[OF m] show "m_start m < start2 m" "content ! (start2 m - 1) = lparen"
    "\<exists>a post. drop (start2 m) content = a @ rparen # post \<and> rparen \<notin> set a \<and>
         m_end m = start2 m + length a + 1"
    by blast+
  fix p
  assume p: "m_start m < p \<and> p < m_end m"
  show "\<forall>m'\<in>set (finditer content). m_start m' \<noteq> p"
  proof
    fix m'
    assume m': "m' \<in> set (finditer content)"
    show "m_start m' \<noteq> p"
    proof
      assume eq: "m_start m' = p"
      with p have "m_start m < m_start m'" by simp
      from finditer_apart[OF m m' this] eq p show False by simp
    qed
  qed
next
  show "length (usages filepath content) = length (finditer content)"
    by (rule length_usages)
next
  show \<open>usages (str ''a.ts'') (str ''toast(toast("a"))'') =
     [\<lparr>u_file = str ''a.ts'', u_line = 1, u_type = str ''default'', u_args = str ''toast("a")''\<rparr>]\<close>
    by (simp add: scan_eval)
qed

theorem candidates_do_not_overlap_witness:
  \<open>\<lparr>m_start = 0, m_end = 16, group1 = None, start2 = 6\<rparr> \<in> set (finditer (str ''toast(toast("a"))'')) \<and>
   prefix toast (drop 6 (str ''toast(toast("a"))'')) \<and>
   \<not> (\<exists>m'\<in>set (finditer (str ''toast(toast("a"))'')). m_start m' = 6) \<and>
   length (usages (str ''a.ts'') (str ''toast(toast("a"))'')) = 1\<close>
proof -
  let ?c = \<open>str ''toast(toast("a"))''\<close>
  let ?m = "\<lparr>m_start = 0, m_end = 16, group1 = None, start2 = 6\<rparr>"
  have 1: "?m \<in> set (finditer ?c)" by (simp add: scan_eval)
  have 2: "prefix toast (drop 6 ?c)" by (simp add: scan_eval)
  have 3: "m_start ?m < 6 \<and> 6 < m_end ?m" by simp
  from candidates_do_not_overlap[of ?m ?c "str ''a.ts''"] 1 3
  have a: "\<forall>m'\<in>set (finditer ?c). m_start m' \<noteq> 6" by blast
  from candidates_do_not_overlap[of ?m ?c "str ''a.ts''"] 1
  have b: "length (usages (str ''a.ts'') ?c) = length (finditer ?c)" by blast
  have "length (finditer ?c) = 1" by (simp add: scan_eval)
  with a b 1 2 show ?thesis by simp
qed

end
